theory Spec2Isabelle
  imports Complex_Main "HOL-Library.Word" "HOL-Library.Signed_Division" "HOL-Library.Log_Nat"
begin

section \<open>The message broker (package msgqueue)\<close>

text \<open>
  The map-based broker. A container carries the uuid it was given, the message and the
  index keys computed for it. The message type is left open; a uuid and an index key are
  strings. The Go map \<open>queue\<close> is a partial map; reading a missing key in Go yields the
  nil slice, which \<open>bucket\<close> renders as the empty list.
\<close>

record 'm messageContainer =
  id_c :: string
  msg :: 'm
  indexes :: "string list"

record 'm MessageQueue =
  indexFuncs :: "('m \<Rightarrow> string list) list"
  queue :: "string \<rightharpoonup> 'm messageContainer list"
  allMessages :: "string \<rightharpoonup> 'm messageContainer"

definition slice_at :: "(string \<rightharpoonup> 'a list) \<Rightarrow> string \<Rightarrow> 'a list" where
  "slice_at qu idx = (case qu idx of None \<Rightarrow> [] | Some cs \<Rightarrow> cs)"

definition bucket :: "'m MessageQueue \<Rightarrow> string \<Rightarrow> 'm messageContainer list" where
  "bucket q idx = slice_at (queue q) idx"

text \<open>
  \<open>New\<close> installs the five standard index functions, which are defined elsewhere in
  the package: the list of index functions is a parameter.
\<close>

definition New :: "('m \<Rightarrow> string list) list \<Rightarrow> 'm MessageQueue" where
  "New fs = \<lparr>indexFuncs = fs, queue = Map.empty, allMessages = Map.empty\<rparr>"

definition AddIndexFunc :: "('m \<Rightarrow> string list) \<Rightarrow> 'm MessageQueue \<Rightarrow> 'm MessageQueue" where
  "AddIndexFunc f q = q\<lparr>indexFuncs := indexFuncs q @ [f]\<rparr>"

definition index_msg :: "('m \<Rightarrow> string list) list \<Rightarrow> 'm \<Rightarrow> string list" where
  "index_msg fs m = concat (map (\<lambda>f. f m) fs)"

definition append_to :: "'a \<Rightarrow> string \<Rightarrow> (string \<rightharpoonup> 'a list) \<Rightarrow> (string \<rightharpoonup> 'a list)" where
  "append_to c idx qu = qu(idx \<mapsto> slice_at qu idx @ [c])"

text \<open>
  \<open>AddMessage\<close>: the uuid drawn by \<open>uuid.New()\<close> is the argument \<open>uid\<close>.
\<close>

definition AddMessage :: "string \<Rightarrow> 'm \<Rightarrow> 'm MessageQueue \<Rightarrow> 'm MessageQueue" where
  "AddMessage uid m q =
     (let ixs = index_msg (indexFuncs q) m;
          msgContainer = \<lparr>id_c = uid, msg = m, indexes = ixs\<rparr>
      in q\<lparr>queue := fold (append_to msgContainer) ixs (queue q),
            allMessages := (allMessages q)(uid \<mapsto> msgContainer)\<rparr>)"

definition MessagesForIndex :: "string \<Rightarrow> 'm MessageQueue \<Rightarrow> (string \<rightharpoonup> 'm)" where
  "MessagesForIndex index q =
     fold (\<lambda>cont ret. ret(id_c cont \<mapsto> msg cont)) (bucket q index) Map.empty"

definition drop_id :: "string \<Rightarrow> string \<Rightarrow> (string \<rightharpoonup> 'm messageContainer list)
    \<Rightarrow> (string \<rightharpoonup> 'm messageContainer list)" where
  "drop_id i indx qu = qu(indx \<mapsto> filter (\<lambda>c. id_c c \<noteq> i) (slice_at qu indx))"

definition deleteMessageFromAllIndexes ::
    "string list \<Rightarrow> string \<Rightarrow> 'm MessageQueue \<Rightarrow> 'm MessageQueue" where
  "deleteMessageFromAllIndexes ixs i q =
     q\<lparr>queue := fold (drop_id i) ixs (queue q), allMessages := (allMessages q)(i := None)\<rparr>"

definition PopMessage :: "string \<Rightarrow> 'm MessageQueue \<Rightarrow> 'm option \<times> 'm MessageQueue" where
  "PopMessage index q =
     (case bucket q index of
        [] \<Rightarrow> (None, q)
      | c # _ \<Rightarrow> (Some (msg c), deleteMessageFromAllIndexes (indexes c) (id_c c) q))"

definition MsgCount :: "string \<Rightarrow> 'm MessageQueue \<Rightarrow> nat" where
  "MsgCount index q = length (bucket q index)"

definition Len :: "'m MessageQueue \<Rightarrow> nat" where
  "Len q = card (dom (queue q))"

definition delete_if_found :: "string \<Rightarrow> 'm MessageQueue \<Rightarrow> 'm MessageQueue" where
  "delete_if_found i q =
     (case allMessages q i of
        None \<Rightarrow> q
      | Some c \<Rightarrow> deleteMessageFromAllIndexes (indexes c) i q)"

definition DeleteMessagesWithIds :: "string list \<Rightarrow> 'm MessageQueue \<Rightarrow> 'm MessageQueue" where
  "DeleteMessagesWithIds ids q = fold delete_if_found ids q"

definition PurgeIndexedMessages :: "string \<Rightarrow> 'm MessageQueue \<Rightarrow> 'm MessageQueue" where
  "PurgeIndexedMessages index q = q\<lparr>queue := (queue q)(index \<mapsto> [])\<rparr>"

subsection \<open>Brokers that a run can reach\<close>

text \<open>
  \<open>reach p h q\<close>: the broker \<open>q\<close> is the result of a run of operations on a fresh
  broker; \<open>h\<close> lists the uuids handed out so far, oldest first, and a new uuid differs
  from all of them. The flag \<open>p\<close> tells whether the run may purge.
\<close>

inductive reach :: "bool \<Rightarrow> string list \<Rightarrow> 'm MessageQueue \<Rightarrow> bool" for p :: bool where
  reach_New: "reach p [] (New fs)"
| reach_AddIndexFunc: "reach p h q \<Longrightarrow> reach p h (AddIndexFunc f q)"
| reach_Add: "reach p h q \<Longrightarrow> uid \<notin> set h \<Longrightarrow> reach p (h @ [uid]) (AddMessage uid m q)"
| reach_Pop: "reach p h q \<Longrightarrow> reach p h (snd (PopMessage idx q))"
| reach_Delete: "reach p h q \<Longrightarrow> reach p h (DeleteMessagesWithIds ids q)"
| reach_Purge: "p \<Longrightarrow> reach p h q \<Longrightarrow> reach p h (PurgeIndexedMessages idx q)"

text \<open>The age of a uuid: its position in the list of uuids handed out.\<close>

definition age :: "string list \<Rightarrow> string \<Rightarrow> nat" where
  "age h u = length (takeWhile (\<lambda>v. v \<noteq> u) h)"

fun pops :: "nat \<Rightarrow> string \<Rightarrow> 'm MessageQueue \<Rightarrow> 'm MessageQueue" where
  "pops 0 idx q = q"
| "pops (Suc k) idx q = pops k idx (snd (PopMessage idx q))"

text \<open>The invariant every reachable broker satisfies, purge or not.\<close>

definition broker_inv :: "string list \<Rightarrow> 'm MessageQueue \<Rightarrow> bool" where
  "broker_inv h q \<longleftrightarrow>
     (\<forall>idx c. c \<in> set (bucket q idx) \<longrightarrow>
        allMessages q (id_c c) = Some c \<and> idx \<in> set (indexes c) \<and> id_c c \<in> set h) \<and>
     (\<forall>idx. sorted (map (\<lambda>c. age h (id_c c)) (bucket q idx)))"

text \<open>What holds in addition as long as no bucket was purged.\<close>

definition lookup_inv :: "'m MessageQueue \<Rightarrow> bool" where
  "lookup_inv q \<longleftrightarrow>
     (\<forall>u c. allMessages q u = Some c \<longrightarrow>
        id_c c = u \<and> (\<forall>idx \<in> set (indexes c). c \<in> set (bucket q idx)))"


subsection \<open>The cache-based draft of the broker\<close>

text \<open>
  The second draft keeps buckets and containers in two stores of the go-cache library,
  \<open>q\<close> and \<open>msgs\<close>, both made by \<open>cache.New(time.Minute*10, time.Minute*11)\<close>; its
  maps \<open>queue\<close> and \<open>allMessages\<close> are created and never written. Such a store holds,
  with each object, the time at which it expires: \<open>SetDefault\<close> stores an object to
  expire ten minutes after the call, \<open>Get\<close> reports an expired object as absent, and
  every eleven minutes a janitor deletes the expired objects. Time is the clock's
  \<open>UnixNano\<close>, an integer. The library reads the clock in every \<open>Get\<close> and
  \<open>SetDefault\<close>; the clock is taken not to advance within one operation of the broker,
  and its reading there is the argument \<open>now\<close>.
\<close>

type_synonym Time = int

record 'a Item =
  Object :: 'a
  Expiration :: int

type_synonym 'a Cache = "string \<rightharpoonup> 'a Item"

definition defaultExpiration :: int where
  "defaultExpiration = 600000000000"

definition Expired :: "Time \<Rightarrow> 'a Item \<Rightarrow> bool" where
  "Expired now item \<longleftrightarrow> Expiration item > 0 \<and> now > Expiration item"

definition cache_Get :: "Time \<Rightarrow> 'a Cache \<Rightarrow> string \<Rightarrow> 'a option" where
  "cache_Get now c k =
     (case c k of
        None \<Rightarrow> None
      | Some item \<Rightarrow> if Expired now item then None else Some (Object item))"

definition cache_SetDefault :: "Time \<Rightarrow> string \<Rightarrow> 'a \<Rightarrow> 'a Cache \<Rightarrow> 'a Cache" where
  "cache_SetDefault now k x c = c(k \<mapsto> \<lparr>Object = x, Expiration = now + defaultExpiration\<rparr>)"

definition cache_Delete :: "string \<Rightarrow> 'a Cache \<Rightarrow> 'a Cache" where
  "cache_Delete k c = c(k := None)"

definition cache_DeleteExpired :: "Time \<Rightarrow> 'a Cache \<Rightarrow> 'a Cache" where
  "cache_DeleteExpired now c =
     (\<lambda>k. case c k of
        None \<Rightarrow> None
      | Some item \<Rightarrow> if Expired now item then None else Some item)"

definition cache_ItemCount :: "'a Cache \<Rightarrow> nat" where
  "cache_ItemCount c = card (dom c)"

record 'm CacheQueue =
  indexFuncs_c :: "('m \<Rightarrow> string list) list"
  q_c :: "'m messageContainer list Cache"
  msgs_c :: "'m messageContainer Cache"

definition New_cache :: "('m \<Rightarrow> string list) list \<Rightarrow> 'm CacheQueue" where
  "New_cache fs = \<lparr>indexFuncs_c = fs, q_c = Map.empty, msgs_c = Map.empty\<rparr>"

definition AddIndexFunc_cache :: "('m \<Rightarrow> string list) \<Rightarrow> 'm CacheQueue \<Rightarrow> 'm CacheQueue" where
  "AddIndexFunc_cache f q = q\<lparr>indexFuncs_c := indexFuncs_c q @ [f]\<rparr>"

text \<open>What \<open>Get\<close> shows of a bucket at the time \<open>now\<close>: nothing if it is absent or expired.\<close>

definition slice_at_cache :: "Time \<Rightarrow> 'a list Cache \<Rightarrow> string \<Rightarrow> 'a list" where
  "slice_at_cache now qu idx = (case cache_Get now qu idx of None \<Rightarrow> [] | Some cs \<Rightarrow> cs)"

definition bucket_cache :: "Time \<Rightarrow> 'm CacheQueue \<Rightarrow> string \<Rightarrow> 'm messageContainer list" where
  "bucket_cache now q idx = slice_at_cache now (q_c q) idx"

definition append_to_cache :: "Time \<Rightarrow> 'a \<Rightarrow> string \<Rightarrow> 'a list Cache \<Rightarrow> 'a list Cache" where
  "append_to_cache now c idx qu = cache_SetDefault now idx (slice_at_cache now qu idx @ [c]) qu"

definition AddMessage_cache :: "Time \<Rightarrow> string \<Rightarrow> 'm \<Rightarrow> 'm CacheQueue \<Rightarrow> 'm CacheQueue" where
  "AddMessage_cache now uid m q =
     (let ixs = index_msg (indexFuncs_c q) m;
          msgContainer = \<lparr>id_c = uid, msg = m, indexes = ixs\<rparr>
      in q\<lparr>q_c := fold (append_to_cache now msgContainer) ixs (q_c q),
            msgs_c := cache_SetDefault now uid msgContainer (msgs_c q)\<rparr>)"

definition MessagesForIndex_cache :: "Time \<Rightarrow> string \<Rightarrow> 'm CacheQueue \<Rightarrow> (string \<rightharpoonup> 'm)" where
  "MessagesForIndex_cache now index q =
     (case cache_Get now (q_c q) index of
        None \<Rightarrow> Map.empty
      | Some msgContainers \<Rightarrow>
          fold (\<lambda>cont ret. ret(id_c cont \<mapsto> msg cont)) msgContainers Map.empty)"

definition drop_id_cache :: "Time \<Rightarrow> string \<Rightarrow> string \<Rightarrow> 'm messageContainer list Cache
    \<Rightarrow> 'm messageContainer list Cache" where
  "drop_id_cache now i indx qu =
     (case cache_Get now qu indx of
        None \<Rightarrow> qu
      | Some msgContainers \<Rightarrow>
          cache_SetDefault now indx (filter (\<lambda>c. id_c c \<noteq> i) msgContainers) qu)"

definition deleteMessageFromAllIndexes_cache ::
    "Time \<Rightarrow> string list \<Rightarrow> string \<Rightarrow> 'm CacheQueue \<Rightarrow> 'm CacheQueue" where
  "deleteMessageFromAllIndexes_cache now ixs i q =
     q\<lparr>q_c := fold (drop_id_cache now i) ixs (q_c q), msgs_c := cache_Delete i (msgs_c q)\<rparr>"

definition PopMessage_cache :: "Time \<Rightarrow> string \<Rightarrow> 'm CacheQueue \<Rightarrow> 'm option \<times> 'm CacheQueue" where
  "PopMessage_cache now index q =
     (case cache_Get now (q_c q) index of
        None \<Rightarrow> (None, q)
      | Some [] \<Rightarrow> (None, q)
      | Some (c # _) \<Rightarrow>
          (Some (msg c), deleteMessageFromAllIndexes_cache now (indexes c) (id_c c) q))"

definition MsgCount_cache :: "Time \<Rightarrow> string \<Rightarrow> 'm CacheQueue \<Rightarrow> nat" where
  "MsgCount_cache now index q =
     (case cache_Get now (q_c q) index of None \<Rightarrow> 0 | Some msgContainers \<Rightarrow> length msgContainers)"

definition Len_cache :: "'m CacheQueue \<Rightarrow> nat" where
  "Len_cache q = cache_ItemCount (q_c q)"

definition delete_if_found_cache :: "Time \<Rightarrow> string \<Rightarrow> 'm CacheQueue \<Rightarrow> 'm CacheQueue" where
  "delete_if_found_cache now i q =
     (case cache_Get now (msgs_c q) i of
        None \<Rightarrow> q
      | Some c \<Rightarrow> deleteMessageFromAllIndexes_cache now (indexes c) i q)"

definition DeleteMessagesWithIds_cache :: "Time \<Rightarrow> string list \<Rightarrow> 'm CacheQueue \<Rightarrow> 'm CacheQueue" where
  "DeleteMessagesWithIds_cache now ids q = fold (delete_if_found_cache now) ids q"

definition PurgeIndexedMessages_cache :: "Time \<Rightarrow> string \<Rightarrow> 'm CacheQueue \<Rightarrow> 'm CacheQueue" where
  "PurgeIndexedMessages_cache now index q = q\<lparr>q_c := cache_SetDefault now index [] (q_c q)\<rparr>"

text \<open>The janitors of the two stores.\<close>

definition janitor_q :: "Time \<Rightarrow> 'm CacheQueue \<Rightarrow> 'm CacheQueue" where
  "janitor_q now q = q\<lparr>q_c := cache_DeleteExpired now (q_c q)\<rparr>"

definition janitor_msgs :: "Time \<Rightarrow> 'm CacheQueue \<Rightarrow> 'm CacheQueue" where
  "janitor_msgs now q = q\<lparr>msgs_c := cache_DeleteExpired now (msgs_c q)\<rparr>"

text \<open>
  \<open>reach_cache h q\<close>: the broker \<open>q\<close> of the second draft is the result of a run of
  operations and janitor passes, at any times, on a fresh broker; \<open>h\<close> lists the uuids
  handed out so far, oldest first, and a new uuid differs from all of them.
\<close>

inductive reach_cache :: "string list \<Rightarrow> 'm CacheQueue \<Rightarrow> bool" where
  reach_cache_New: "reach_cache [] (New_cache fs)"
| reach_cache_AddIndexFunc: "reach_cache h q \<Longrightarrow> reach_cache h (AddIndexFunc_cache f q)"
| reach_cache_Add: "reach_cache h q \<Longrightarrow> uid \<notin> set h \<Longrightarrow>
    reach_cache (h @ [uid]) (AddMessage_cache now uid m q)"
| reach_cache_Pop: "reach_cache h q \<Longrightarrow> reach_cache h (snd (PopMessage_cache now idx q))"
| reach_cache_Delete: "reach_cache h q \<Longrightarrow> reach_cache h (DeleteMessagesWithIds_cache now ids q)"
| reach_cache_Purge: "reach_cache h q \<Longrightarrow> reach_cache h (PurgeIndexedMessages_cache now idx q)"
| reach_cache_janitor_q: "reach_cache h q \<Longrightarrow> reach_cache h (janitor_q now q)"
| reach_cache_janitor_msgs: "reach_cache h q \<Longrightarrow> reach_cache h (janitor_msgs now q)"

fun pops_cache :: "nat \<Rightarrow> Time \<Rightarrow> string \<Rightarrow> 'm CacheQueue \<Rightarrow> 'm CacheQueue" where
  "pops_cache 0 now idx q = q"
| "pops_cache (Suc k) now idx q = pops_cache k now idx (snd (PopMessage_cache now idx q))"

text \<open>The bucket as the store holds it, expired or not.\<close>

definition held_in :: "'a list Cache \<Rightarrow> string \<Rightarrow> 'a list" where
  "held_in qu idx = (case qu idx of None \<Rightarrow> [] | Some item \<Rightarrow> Object item)"

definition held :: "'m CacheQueue \<Rightarrow> string \<Rightarrow> 'm messageContainer list" where
  "held q idx = held_in (q_c q) idx"

text \<open>The invariant of the brokers of the second draft that a run reaches.\<close>

definition cache_inv :: "string list \<Rightarrow> 'm CacheQueue \<Rightarrow> bool" where
  "cache_inv h q \<longleftrightarrow>
     (\<forall>idx c. c \<in> set (held q idx) \<longrightarrow> idx \<in> set (indexes c) \<and> id_c c \<in> set h) \<and>
     (\<forall>idx idx' c c'. c \<in> set (held q idx) \<and> c' \<in> set (held q idx') \<and> id_c c = id_c c'
        \<longrightarrow> c = c') \<and>
     (\<forall>idx. sorted (map (\<lambda>c. age h (id_c c)) (held q idx)))"

subsection \<open>A change-round message under two index keys\<close>

text \<open>
  Two index functions in the manner of the standard ones, over messages that are just a
  round number: the first keys a round-change message of round 2 alone, the second keys
  every message.
\<close>

definition specific_index :: "nat \<Rightarrow> string list" where
  "specific_index r = (if r = 2 then [''ibft/L/1/2/CR''] else [])"

definition all_rounds_index :: "nat \<Rightarrow> string list" where
  "all_rounds_index r = [''change-round-all/L/1'']"

definition two_key_broker :: "nat MessageQueue" where
  "two_key_broker = AddMessage ''u1'' 2 (New [specific_index, all_rounds_index])"

definition unkeyed_broker :: "nat MessageQueue" where
  "unkeyed_broker = AddMessage ''u1'' 3 (New [specific_index])"

definition two_message_broker :: "nat MessageQueue" where
  "two_message_broker = AddMessage ''u2'' 3 two_key_broker"

definition two_key_cache :: "nat CacheQueue" where
  "two_key_cache = AddMessage_cache 0 ''u1'' 2 (New_cache [specific_index, all_rounds_index])"

definition two_message_cache :: "nat CacheQueue" where
  "two_message_cache = AddMessage_cache 5 ''u2'' 3 two_key_cache"

text \<open>
  The first draft after a purge: the round-change message, the purge of the bucket of all
  round changes, then a second message.
\<close>

definition purged_broker :: "nat MessageQueue" where
  "purged_broker =
     AddMessage ''u2'' 3 (PurgeIndexedMessages ''change-round-all/L/1'' two_key_broker)"

section \<open>Replaying the contract events (package eth1)\<close>

text \<open>
  A sync offset is a \<open>big.Int\<close>, an unbounded integer; a pointer to one is an option.
  \<open>Uint64\<close> reads the low 64 bits of the absolute value, as \<open>big.Int.Uint64\<close> does.
  Block numbers are \<open>uint64\<close>.
\<close>

type_synonym SyncOffset = int
type_synonym uint64 = "64 word"

definition Uint64 :: "SyncOffset \<Rightarrow> uint64" where
  "Uint64 x = word_of_int \<bar>x\<bar>"

definition SetUint64 :: "uint64 \<Rightarrow> SyncOffset" where
  "SetUint64 w = uint w"

text \<open>
  Reading a number in base 16, as \<open>big.Int.SetString(shex, 16)\<close> does: a sign, then
  the digits up to the first character that is not a digit. The call reports success if
  there was a digit and nothing is left, and it leaves the number read so far in the
  receiver whether it succeeds or not.
\<close>

definition hex_digit :: "char \<Rightarrow> nat option" where
  "hex_digit c =
     (let n = of_char c :: nat in
      if 48 \<le> n \<and> n \<le> 57 then Some (n - 48)
      else if 97 \<le> n \<and> n \<le> 102 then Some (n - 87)
      else if 65 \<le> n \<and> n \<le> 70 then Some (n - 55)
      else None)"

definition scanSign :: "string \<Rightarrow> bool \<times> string" where
  "scanSign s =
     (case s of
        [] \<Rightarrow> (False, [])
      | c # cs \<Rightarrow>
          if c = CHR ''-'' then (True, cs) else if c = CHR ''+'' then (False, cs) else (False, s))"

fun scan :: "nat \<Rightarrow> string \<Rightarrow> nat \<times> string" where
  "scan acc [] = (acc, [])"
| "scan acc (c # cs) =
     (case hex_digit c of None \<Rightarrow> (acc, c # cs) | Some d \<Rightarrow> scan (16 * acc + d) cs)"

text \<open>The receiver after \<open>SetString\<close> on a fresh \<open>big.Int\<close>, and whether it succeeded.\<close>

definition SetString16 :: "string \<Rightarrow> int \<times> bool" where
  "SetString16 s =
     (case scanSign s of
        (neg, digits) \<Rightarrow>
          case scan 0 digits of
            (v, rest) \<Rightarrow>
              (if neg then - int v else int v, length rest < length digits \<and> rest = []))"

definition defaultSyncOffset :: string where
  "defaultSyncOffset = ''4e706f''"

text \<open>
  \<open>HexStringToSyncOffset\<close> ignores whether \<open>SetString\<close> succeeded and returns the
  receiver.
\<close>

definition HexStringToSyncOffset :: "string \<Rightarrow> SyncOffset option" where
  "HexStringToSyncOffset shex =
     (if length shex = 0 then None else Some (fst (SetString16 shex)))"

definition DefaultSyncOffset :: "SyncOffset option" where
  "DefaultSyncOffset = HexStringToSyncOffset defaultSyncOffset"

text \<open>
  \<open>determineSyncOffset\<close>, given what \<open>storage.GetSyncOffset()\<close> returned: the offset
  (a pointer), the flag \<open>found\<close> and the error. The error is logged and nothing more.
\<close>

definition determineSyncOffset ::
    "SyncOffset option \<times> bool \<times> string option \<Rightarrow> SyncOffset option \<Rightarrow> SyncOffset option" where
  "determineSyncOffset got syncOffset =
     (case got of (syncOffsetFromStorage, found, err) \<Rightarrow>
        if found \<and> syncOffsetFromStorage \<noteq> None then syncOffsetFromStorage
        else if syncOffset \<noteq> None then syncOffset
        else DefaultSyncOffset)"

subsection \<open>Events\<close>

text \<open>
  The event types are declared elsewhere in the package; they are modelled by the
  fields that \<open>sync.go\<close> reads.
\<close>

record Log =
  BlockNumber :: uint64

record SyncEndedEvent =
  Logs :: "Log list"
  Success :: bool

datatype EventData = SyncEnded SyncEndedEvent | ContractData string

record Event =
  Log :: Log
  Data :: EventData

text \<open>What the subject's channel delivers: an event or a value of another type.\<close>

datatype chan_item = IsEvent Event | NotEvent

definition no_SyncEndedEvent :: SyncEndedEvent where
  "no_SyncEndedEvent = \<lparr>Logs = [], Success = False\<rparr>"

text \<open>
  The goroutine that reads the channel: every event before the first \<open>SyncEndedEvent\<close>
  is queued for the handler; reading stops at that event, or when the channel is closed,
  and then \<open>syncEndedEvent\<close> holds the zero value.
\<close>

fun read_events :: "chan_item list \<Rightarrow> Event list \<times> SyncEndedEvent" where
  "read_events [] = ([], no_SyncEndedEvent)"
| "read_events (NotEvent # cn) = read_events cn"
| "read_events (IsEvent event # cn) =
     (case Data event of
        SyncEnded syncEndedEvent \<Rightarrow> ([], syncEndedEvent)
      | ContractData _ \<Rightarrow> (case read_events cn of (es, s) \<Rightarrow> (event # es, s)))"

text \<open>
  Modelled from the spec: the execution queue of package \<open>utils/tasks\<close>, whose source
  is missing. It runs every queued task, an error does not stop it, and \<open>Errors()\<close>
  returns the errors accumulated. A nil handler queues nothing.
\<close>

type_synonym SyncEventHandler = "Event \<Rightarrow> string option"

definition queue_errors :: "SyncEventHandler option \<Rightarrow> Event list \<Rightarrow> string list" where
  "queue_errors handler es =
     (case handler of None \<Rightarrow> [] | Some f \<Rightarrow> List.map_filter f es)"

subsection \<open>The storage and the client\<close>

text \<open>
  Modelled from the spec: the storage behind the interface \<open>SyncOffsetStorage\<close>, whose
  source is missing. It holds the offset last saved, if any; \<open>get_offset\<close> returns it
  with the flag whether it is present, \<open>save_offset\<close> replaces it. What the client and the
  storage do in one invocation of \<open>SyncEth1Events\<close> is given by a \<open>round\<close>: whether
  a call fails, what the channel delivers, what the head block is.
\<close>

record round =
  register_fails :: bool
  get_fails :: bool
  sync_fails :: bool
  delivered :: "chan_item list"
  current_block :: "uint64 option"
  save_fails :: bool

type_synonym storage = "SyncOffset option"

definition GetSyncOffset :: "storage \<Rightarrow> round \<Rightarrow> SyncOffset option \<times> bool \<times> string option" where
  "GetSyncOffset st r =
     (if get_fails r then (None, False, Some ''get sync offset'') else (st, st \<noteq> None, None))"

datatype sync_error =
    RegisterFailed  \<comment> \<open>failed to register on contract events subject\<close>
  | SyncFailed  \<comment> \<open>failed to sync contract events\<close>
  | HandlersFailed  \<comment> \<open>failed to handle all events from sync\<close>
  | UpgradeFailed  \<comment> \<open>could not upgrade sync offset\<close>

text \<open>
  The outcome of a call: the error returned, the storage afterwards, the offsets passed
  to \<open>SaveSyncOffset\<close> and the offsets passed to \<open>client.Sync\<close>, both in order.
\<close>

record outcome =
  returned :: "sync_error option"
  stored :: storage
  saves :: "SyncOffset list"
  syncs :: "SyncOffset option list"

definition upgradeSyncOffset ::
    "storage \<Rightarrow> bool \<Rightarrow> SyncOffset \<Rightarrow> SyncEndedEvent \<Rightarrow> sync_error option \<times> storage \<times> SyncOffset list" where
  "upgradeSyncOffset st save_err syncOffset syncEndedEvent =
     (let nResults = length (Logs syncEndedEvent) in
      if nResults > 0 then
        if \<not> Success syncEndedEvent then (None, st, [])
        else
          let rawOffset = BlockNumber (Logs syncEndedEvent ! (nResults - 1)) in
          if rawOffset > Uint64 syncOffset then
            if save_err then (Some UpgradeFailed, st, [SetUint64 rawOffset])
            else (None, Some (SetUint64 rawOffset), [SetUint64 rawOffset])
          else (None, st, [])
      else (None, st, []))"

text \<open>
  The check after the queue has drained: with the current block unavailable the code
  warns and does not fetch again; otherwise it fetches again if the offset is below the
  current block.
\<close>

definition fetch_again :: "SyncOffset \<Rightarrow> uint64 option \<Rightarrow> bool" where
  "fetch_again syncOffset current =
     (case current of None \<Rightarrow> False | Some currentBlock \<Rightarrow> Uint64 syncOffset < currentBlock)"

text \<open>
  \<open>SyncEth1Events\<close> calls itself; each invocation consumes one \<open>round\<close>. With no
  round left the call has not returned, which is the value \<open>None\<close>. The offset that
  \<open>determineSyncOffset\<close> returns is never nil (lemma \<open>determineSyncOffset_not_nil\<close>),
  so the case of a nil offset, \<open>None\<close> as well, does not arise.
\<close>

fun SyncEth1Events ::
    "round list \<Rightarrow> storage \<Rightarrow> SyncOffset option \<Rightarrow> SyncEventHandler option \<Rightarrow> outcome option" where
  "SyncEth1Events [] st syncOffset handler = None"
| "SyncEth1Events (r # rs) st syncOffset handler =
     (if register_fails r then
        Some \<lparr>returned = Some RegisterFailed, stored = st, saves = [], syncs = []\<rparr>
      else
        let syncOffset' = determineSyncOffset (GetSyncOffset st r) syncOffset in
        if sync_fails r then
          Some \<lparr>returned = Some SyncFailed, stored = st, saves = [], syncs = [syncOffset']\<rparr>
        else
          case read_events (delivered r) of (queued, syncEndedEvent) \<Rightarrow>
            if length (queue_errors handler queued) > 0 then
              Some \<lparr>returned = Some HandlersFailed, stored = st, saves = [], syncs = [syncOffset']\<rparr>
            else
              case syncOffset' of
                None \<Rightarrow> None
              | Some off \<Rightarrow>
                  if fetch_again off (current_block r) then
                    map_option (\<lambda>out. out\<lparr>syncs := syncOffset' # syncs out\<rparr>)
                      (SyncEth1Events rs st syncOffset' handler)
                  else
                    case upgradeSyncOffset st (save_fails r) off syncEndedEvent of
                      (e, st', sv) \<Rightarrow>
                        Some \<lparr>returned = e, stored = st', saves = sv, syncs = [syncOffset']\<rparr>)"

text \<open>A round in which all goes well and the head block is ahead of the offset.\<close>

definition head_ahead :: "SyncEventHandler option \<Rightarrow> SyncOffset \<Rightarrow> round \<Rightarrow> bool" where
  "head_ahead handler off r \<longleftrightarrow>
     \<not> register_fails r \<and> \<not> get_fails r \<and> \<not> sync_fails r \<and>
     queue_errors handler (fst (read_events (delivered r))) = [] \<and>
     fetch_again off (current_block r)"

text \<open>
  A replay of one contract event that ends well at block 5140600, with the head at block
  5140700; a round in which the head is unavailable and nothing is replayed; and a handler
  that accepts every event.
\<close>

definition replay_round :: round where
  "replay_round = \<lparr>register_fails = False, get_fails = False, sync_fails = False,
     delivered = [IsEvent \<lparr>Log = \<lparr>BlockNumber = 5140600\<rparr>, Data = ContractData ''ValidatorAdded''\<rparr>,
       IsEvent \<lparr>Log = \<lparr>BlockNumber = 5140600\<rparr>,
         Data = SyncEnded \<lparr>Logs = [\<lparr>BlockNumber = 5140600\<rparr>], Success = True\<rparr>\<rparr>],
     current_block = Some 5140700, save_fails = False\<rparr>"

definition accepting :: SyncEventHandler where
  "accepting event = None"

definition idle_round :: round where
  "idle_round = \<lparr>register_fails = False, get_fails = False, sync_fails = False,
     delivered = [IsEvent \<lparr>Log = \<lparr>BlockNumber = 0\<rparr>,
       Data = SyncEnded \<lparr>Logs = [], Success = True\<rparr>\<rparr>],
     current_block = None, save_fails = False\<rparr>"

definition caught_up_round :: round where
  "caught_up_round = replay_round\<lparr>current_block := Some 5140591\<rparr>"

definition headless_round :: round where
  "headless_round = replay_round\<lparr>current_block := None, save_fails := True\<rparr>"

section \<open>Waiting for peers (WaitForMinPeers)\<close>

text \<open>
  A \<open>time.Duration\<close> is an \<open>int64\<close> counting nanoseconds: an integer, with the
  wrap-around of the doubling written out. Go's \<open>%\<close> truncates towards zero, which is
  \<open>smod\<close>, and panics on a zero divisor.
\<close>

type_synonym Duration = int

definition double_wrapped :: "Duration \<Rightarrow> Duration" where
  "double_wrapped interval = signed_take_bit 63 (interval * 2)"

text \<open>
  One pass of the loop sees the answer of \<open>net.AllPeers\<close> (the number of peers, or an
  error) and, after the sleep, whether the context is done.
\<close>

record poll =
  peers :: "nat option"
  ctx_done :: bool

definition haveMinPeers :: "nat option \<Rightarrow> int \<Rightarrow> bool \<times> int" where
  "haveMinPeers all_peers count =
     (case all_peers of
        None \<Rightarrow> (False, 0)
      | Some nPeers \<Rightarrow> (int nPeers \<ge> count, int nPeers))"

datatype wait_result =
    FoundPeers  \<comment> \<open>returns nil\<close>
  | TimedOut  \<comment> \<open>the error "timed out"\<close>
  | CouldNotFindPeers  \<comment> \<open>the error "could not find peers"\<close>
  | DivideByZero  \<comment> \<open>the run-time panic of \<open>%\<close> with a zero limit\<close>

definition wrap_interval :: "Duration \<Rightarrow> Duration \<Rightarrow> Duration \<Rightarrow> Duration" where
  "wrap_interval start limit interval =
     (let interval' = interval smod limit in if interval' = 0 then start else interval')"

text \<open>
  The loop, one pass for each \<open>poll\<close>; with no poll left it is still waiting, which is
  the result \<open>None\<close>. The second component lists the intervals slept, in order.
\<close>

fun wait_loop :: "poll list \<Rightarrow> int \<Rightarrow> Duration \<Rightarrow> Duration \<Rightarrow> Duration \<Rightarrow> bool
    \<Rightarrow> wait_result option \<times> Duration list" where
  "wait_loop [] mn interval start limit stopAtLimit = (None, [])"
| "wait_loop (p # ps) mn interval start limit stopAtLimit =
     (if fst (haveMinPeers (peers p) mn) then (Some FoundPeers, [])
      else if ctx_done p then (Some TimedOut, [interval])
      else if stopAtLimit \<and> double_wrapped interval = limit then (Some CouldNotFindPeers, [interval])
      else if limit = 0 then (Some DivideByZero, [interval])
      else
        case wait_loop ps mn (wrap_interval start limit (double_wrapped interval)) start limit
            stopAtLimit of
          (res, slept) \<Rightarrow> (res, interval # slept))"

definition WaitForMinPeers :: "poll list \<Rightarrow> int \<Rightarrow> Duration \<Rightarrow> Duration \<Rightarrow> bool
    \<Rightarrow> wait_result option \<times> Duration list" where
  "WaitForMinPeers polls mn start limit stopAtLimit =
     wait_loop polls mn start start limit stopAtLimit"




section \<open>Validator shares and their storage (package storage)\<close>

type_synonym byte = "8 word"

text \<open>
  A committee node (\<open>proto.Node\<close>); a byte slice is a list of bytes, so the nil slice
  and the empty slice are the same value here.
\<close>

record Node =
  IbftId :: uint64
  Pk :: "byte list"
  Sk :: "byte list"

text \<open>
  The share. A pointer is an option: its public key, its share key and its metadata may
  be nil, and so may a node of the committee map. The BLS keys and the metadata are
  values of types left open.
\<close>

record ('pk, 'sk, 'md) Share =
  NodeID :: uint64
  PublicKey :: "'pk option"
  ShareKey :: "'sk option"
  Committee :: "uint64 \<rightharpoonup> Node option"
  Metadata :: "'md option"

record 'md serializedShare =
  NodeID_s :: uint64
  ShareKey_s :: "byte list"
  Committee_s :: "uint64 \<rightharpoonup> Node option"
  Metadata_s :: "'md option"

text \<open>
  The libraries that the share relies on are parameters: the BLS library with the
  serialization of public and secret keys and the zero secret key \<open>bls.SecretKey{}\<close>,
  and \<open>encoding/gob\<close> with the encoding of a \<open>serializedShare\<close> into a stored value
  (of a type left open) and its decoding. A failure is \<open>None\<close>.
\<close>

record ('pk, 'sk, 'md, 'v) codec =
  pk_Serialize :: "'pk \<Rightarrow> byte list"
  pk_Deserialize :: "byte list \<Rightarrow> 'pk option"
  sk_Serialize :: "'sk \<Rightarrow> byte list"
  sk_Deserialize :: "byte list \<Rightarrow> 'sk option"
  sk_zero :: 'sk
  gob_Encode :: "'md serializedShare \<Rightarrow> 'v option"
  gob_Decode :: "'v \<Rightarrow> 'md serializedShare option"

datatype share_error =
    NilPointer  \<comment> \<open>the run-time panic of a method called on a nil key\<close>
  | EncodeFailed  \<comment> \<open>Failed to encode serializedValidator\<close>
  | DecodeFailed  \<comment> \<open>Failed to get val value\<close>
  | KeySecretFailed  \<comment> \<open>Failed to get key secret\<close>
  | PubkeyFailed  \<comment> \<open>Failed to get pubkey\<close>
  | HexFailed  \<comment> \<open>the error of \<open>hex.DecodeString\<close>\<close>
  | DbFailed  \<comment> \<open>an error of the database\<close>

definition CommitteeSize :: "('pk, 'sk, 'md) Share \<Rightarrow> nat" where
  "CommitteeSize s = card (dom (Committee s))"

text \<open>
  Copying a node by value goes through the getters of \<open>proto.Node\<close>, which return the
  zero value on a nil node.
\<close>

definition copy_node :: "Node option \<Rightarrow> Node option" where
  "copy_node n =
     (case n of
        None \<Rightarrow> Some \<lparr>IbftId = 0, Pk = [], Sk = []\<rparr>
      | Some n' \<Rightarrow> Some \<lparr>IbftId = IbftId n', Pk = Pk n', Sk = Sk n'\<rparr>)"

definition Serialize :: "('pk, 'sk, 'md, 'v) codec \<Rightarrow> ('pk, 'sk, 'md) Share \<Rightarrow> share_error + 'v" where
  "Serialize cd s =
     (case ShareKey s of
        None \<Rightarrow> Inl NilPointer
      | Some k \<Rightarrow>
          let value = \<lparr>NodeID_s = NodeID s, ShareKey_s = sk_Serialize cd k,
                Committee_s = (\<lambda>key. map_option copy_node (Committee s key)),
                Metadata_s = Metadata s\<rparr>
          in case gob_Encode cd value of None \<Rightarrow> Inl EncodeFailed | Some b \<Rightarrow> Inr b)"

record 'v Obj =
  Key :: "byte list"
  Value :: 'v

definition Deserialize ::
    "('pk, 'sk, 'md, 'v) codec \<Rightarrow> 'v Obj \<Rightarrow> share_error + ('pk, 'sk, 'md) Share" where
  "Deserialize cd obj =
     (case gob_Decode cd (Value obj) of
        None \<Rightarrow> Inl DecodeFailed
      | Some value \<Rightarrow>
          case (if length (ShareKey_s value) > 0 then sk_Deserialize cd (ShareKey_s value)
                else Some (sk_zero cd)) of
            None \<Rightarrow> Inl KeySecretFailed
          | Some shareSecret \<Rightarrow>
              case pk_Deserialize cd (Key obj) of
                None \<Rightarrow> Inl PubkeyFailed
              | Some pubKey \<Rightarrow>
                  Inr \<lparr>NodeID = NodeID_s value, PublicKey = Some pubKey,
                    ShareKey = Some shareSecret, Committee = Committee_s value,
                    Metadata = Metadata_s value\<rparr>)"

definition HasMetadata :: "('pk, 'sk, 'md) Share \<Rightarrow> bool" where
  "HasMetadata s \<longleftrightarrow> Metadata s \<noteq> None"

subsection \<open>The collection of shares\<close>

text \<open>
  Modelled from the spec: the key-value store behind the interface \<open>basedb.IDb\<close>,
  whose source is missing. Under the prefix of the collection it is a map from keys to stored
  values; \<open>Get\<close> returns the stored pair and whether it was found, \<open>Set\<close> replaces the
  value under the key. Whether a call of the store fails is given by the flags of
  \<open>db_calls\<close>.
\<close>

type_synonym 'v db = "byte list \<rightharpoonup> 'v"

record db_calls =
  get_err :: bool
  set_err :: bool

definition db_Get :: "db_calls \<Rightarrow> 'v db \<Rightarrow> byte list \<Rightarrow> 'v Obj option \<times> bool \<times> share_error option" where
  "db_Get fl d key =
     (case d key of
        None \<Rightarrow> (None, False, None)
      | Some v \<Rightarrow>
          if get_err fl then (None, True, Some DbFailed)
          else (Some \<lparr>Key = key, Value = v\<rparr>, True, None))"

definition db_Set :: "db_calls \<Rightarrow> 'v db \<Rightarrow> byte list \<Rightarrow> 'v \<Rightarrow> share_error option \<times> 'v db" where
  "db_Set fl d key v = (if set_err fl then (Some DbFailed, d) else (None, d(key \<mapsto> v)))"

definition saveUnsafe :: "('pk, 'sk, 'md, 'v) codec \<Rightarrow> db_calls \<Rightarrow> 'v db \<Rightarrow> ('pk, 'sk, 'md) Share
    \<Rightarrow> share_error option \<times> 'v db" where
  "saveUnsafe cd fl d share =
     (case Serialize cd share of
        Inl err \<Rightarrow> (Some err, d)
      | Inr v \<Rightarrow>
          case PublicKey share of
            None \<Rightarrow> (Some NilPointer, d)
          | Some pk \<Rightarrow> db_Set fl d (pk_Serialize cd pk) v)"


definition getUnsafe :: "('pk, 'sk, 'md, 'v) codec \<Rightarrow> db_calls \<Rightarrow> 'v db \<Rightarrow> byte list
    \<Rightarrow> ('pk, 'sk, 'md) Share option \<times> bool \<times> share_error option" where
  "getUnsafe cd fl d key =
     (case db_Get fl d key of
        (obj, found, err) \<Rightarrow>
          if \<not> found then (None, False, None)
          else if err \<noteq> None then (None, found, err)
          else
            case obj of
              None \<Rightarrow> (None, found, Some NilPointer)
            | Some o' \<Rightarrow>
                (case Deserialize cd o' of
                   Inl e \<Rightarrow> (None, found, Some e)
                 | Inr share \<Rightarrow> (Some share, found, None)))"

definition GetValidatorShare :: "('pk, 'sk, 'md, 'v) codec \<Rightarrow> db_calls \<Rightarrow> 'v db \<Rightarrow> byte list
    \<Rightarrow> ('pk, 'sk, 'md) Share option \<times> bool \<times> share_error option" where
  "GetValidatorShare cd fl d key = getUnsafe cd fl d key"

text \<open>\<open>hex.DecodeString\<close>: two hexadecimal digits for a byte.\<close>

fun hex_DecodeString :: "string \<Rightarrow> byte list option" where
  "hex_DecodeString [] = Some []"
| "hex_DecodeString [c] = None"
| "hex_DecodeString (c1 # c2 # cs) =
     (case (hex_digit c1, hex_digit c2) of
        (Some a, Some b) \<Rightarrow> map_option ((#) (of_nat (16 * a + b))) (hex_DecodeString cs)
      | _ \<Rightarrow> None)"

definition UpdateValidatorMetadata :: "('pk, 'sk, 'md, 'v) codec \<Rightarrow> db_calls \<Rightarrow> 'v db \<Rightarrow> string
    \<Rightarrow> 'md option \<Rightarrow> share_error option \<times> 'v db" where
  "UpdateValidatorMetadata cd fl d pk metadata =
     (case hex_DecodeString pk of
        None \<Rightarrow> (Some HexFailed, d)
      | Some key \<Rightarrow>
          case getUnsafe cd fl d key of
            (share, found, err) \<Rightarrow>
              if err \<noteq> None then (err, d)
              else if \<not> found then (None, d)
              else
                case share of
                  None \<Rightarrow> (Some NilPointer, d)
                | Some s \<Rightarrow> saveUnsafe cd fl d (s\<lparr>Metadata := metadata\<rparr>))"

subsection \<open>What the share needs of the libraries\<close>

text \<open>
  A share without a nil pointer: its keys are not nil and no node of its committee is
  nil.
\<close>

definition no_nil :: "('pk, 'sk, 'md) Share \<Rightarrow> bool" where
  "no_nil s \<longleftrightarrow>
     PublicKey s \<noteq> None \<and> ShareKey s \<noteq> None \<and> (\<forall>k. Committee s k \<noteq> Some None)"

text \<open>
  The libraries round-trip: decoding inverts encoding, for public keys, for secret keys
  (a secret key serialized to no bytes at all is the zero key) and for gob, which encodes
  every \<open>serializedShare\<close> without nil nodes.
\<close>

definition round_trips :: "('pk, 'sk, 'md, 'v) codec \<Rightarrow> bool" where
  "round_trips cd \<longleftrightarrow>
     (\<forall>p. pk_Deserialize cd (pk_Serialize cd p) = Some p) \<and>
     (\<forall>k. if sk_Serialize cd k = [] then k = sk_zero cd
          else sk_Deserialize cd (sk_Serialize cd k) = Some k) \<and>
     (\<forall>v. (\<forall>k. Committee_s v k \<noteq> Some None) \<longrightarrow>
          (\<exists>b. gob_Encode cd v = Some b \<and> gob_Decode cd b = Some v))"

text \<open>A public key has one serialization: the bytes it is read from.\<close>

definition canonical_keys :: "('pk, 'sk, 'md, 'v) codec \<Rightarrow> bool" where
  "canonical_keys cd \<longleftrightarrow> (\<forall>b p. pk_Deserialize cd b = Some p \<longrightarrow> pk_Serialize cd p = b)"

text \<open>
  A plain instance of the libraries for the examples: a key is the list of its bytes, the
  zero secret key is the empty list, and a stored value is the record itself.
\<close>

definition plain_codec :: "(byte list, byte list, nat, nat serializedShare) codec" where
  "plain_codec = \<lparr>pk_Serialize = id, pk_Deserialize = Some, sk_Serialize = id,
     sk_Deserialize = Some, sk_zero = [], gob_Encode = Some, gob_Decode = Some\<rparr>"

definition all_work :: db_calls where
  "all_work = \<lparr>get_err = False, set_err = False\<rparr>"

definition four_nodes :: "uint64 \<rightharpoonup> Node option" where
  "four_nodes = [1 \<mapsto> Some \<lparr>IbftId = 1, Pk = [1], Sk = []\<rparr>,
     2 \<mapsto> Some \<lparr>IbftId = 2, Pk = [2], Sk = []\<rparr>,
     3 \<mapsto> Some \<lparr>IbftId = 3, Pk = [3], Sk = []\<rparr>,
     4 \<mapsto> Some \<lparr>IbftId = 4, Pk = [4], Sk = []\<rparr>]"

definition example_share :: "(byte list, byte list, nat) Share" where
  "example_share = \<lparr>NodeID = 1, PublicKey = Some [171, 205], ShareKey = Some [7],
     Committee = four_nodes, Metadata = None\<rparr>"


definition example_db :: "nat serializedShare db" where
  "example_db = [[171, 205] \<mapsto> \<lparr>NodeID_s = 1, ShareKey_s = [7], Committee_s = four_nodes,
     Metadata_s = None\<rparr>]"

definition empty_db :: "nat serializedShare db" where
  "empty_db = Map.empty"

subsection \<open>Thresholds\<close>

text \<open>
  The thresholds are computed in \<open>float64\<close>. A finite \<open>float64\<close> is a rational number;
  an operation yields the exact result rounded to 53 significant bits, to the nearest
  value and to the even one of two nearest. \<open>binade x\<close> is the exponent \<open>e\<close> with
  \<open>2 ^ e \<le> x < 2 ^ (e + 1)\<close> for a positive \<open>x\<close>. The exponent range of \<open>float64\<close>
  (overflow above \<open>2 ^ 1024\<close>, subnormal numbers below \<open>2 ^ - 1022\<close>) is not modelled:
  the values rounded here lie between \<open>1 / 3\<close> and \<open>2 ^ 64\<close>.
\<close>

definition round_even :: "rat \<Rightarrow> int" where
  "round_even z =
     (let f = \<lfloor>z\<rfloor>; d = z - of_int f in
      if d < 1 / 2 then f else if 1 / 2 < d then f + 1 else if even f then f else f + 1)"

definition binade :: "rat \<Rightarrow> int" where
  "binade x =
     (case quotient_of x of
        (a, b) \<Rightarrow> let d = bitlen a - bitlen b in if x < power_int 2 d then d - 1 else d)"

definition round_float64 :: "rat \<Rightarrow> rat" where
  "round_float64 x =
     (if x = 0 then 0
      else let u = power_int 2 (binade \<bar>x\<bar> - 52) in sgn x * of_int (round_even (\<bar>x\<bar> / u)) * u)"

text \<open>\<open>float64(n)\<close> for an \<open>int\<close>, the product and the quotient of two \<open>float64\<close>.\<close>

definition float64_of_int :: "int \<Rightarrow> rat" where
  "float64_of_int n = round_float64 (of_int n)"

definition float64_mul :: "rat \<Rightarrow> rat \<Rightarrow> rat" where
  "float64_mul x y = round_float64 (x * y)"

definition float64_div :: "rat \<Rightarrow> rat \<Rightarrow> rat" where
  "float64_div x y = round_float64 (x / y)"

text \<open>\<open>int(math.Ceil(x))\<close>, for an \<open>x\<close> whose ceiling fits an \<open>int\<close>.\<close>

definition int_Ceil :: "rat \<Rightarrow> int" where
  "int_Ceil x = \<lceil>x\<rceil>"

definition ThresholdSize :: "('pk, 'sk, 'md) Share \<Rightarrow> int" where
  "ThresholdSize s = int_Ceil (float64_div (float64_mul (float64_of_int (int (CommitteeSize s))) 2) 3)"

definition PartialThresholdSize :: "('pk, 'sk, 'md) Share \<Rightarrow> int" where
  "PartialThresholdSize s =
     int_Ceil (float64_div (float64_mul (float64_of_int (int (CommitteeSize s))) 1) 3)"

section \<open>Properties of the message broker\<close>

subsection \<open>Buckets after each operation\<close>

lemma slice_at_append_to:
  "slice_at (append_to c idx qu) k = (if k = idx then slice_at qu idx @ [c] else slice_at qu k)"
  by (simp add: slice_at_def append_to_def)

lemma slice_at_fold_append:
  "slice_at (fold (append_to c) ixs qu) k = slice_at qu k @ replicate (count_list ixs k) c"
  by (induction ixs arbitrary: qu) (simp_all add: slice_at_append_to replicate_app_Cons_same)

lemma slice_at_drop_id:
  "slice_at (drop_id i indx qu) k =
     (if k = indx then filter (\<lambda>c. id_c c \<noteq> i) (slice_at qu indx) else slice_at qu k)"
  by (simp add: slice_at_def drop_id_def)

lemma slice_at_fold_drop:
  "slice_at (fold (drop_id i) ixs qu) k =
     (if k \<in> set ixs then filter (\<lambda>c. id_c c \<noteq> i) (slice_at qu k) else slice_at qu k)"
  by (induction ixs arbitrary: qu) (auto simp: slice_at_drop_id)

lemma bucket_AddMessage:
  "bucket (AddMessage uid m q) k =
     bucket q k @ replicate (count_list (index_msg (indexFuncs q) m) k)
       \<lparr>id_c = uid, msg = m, indexes = index_msg (indexFuncs q) m\<rparr>"
  by (simp add: bucket_def AddMessage_def Let_def slice_at_fold_append)

lemma bucket_delete:
  "bucket (deleteMessageFromAllIndexes ixs i q) k =
     (if k \<in> set ixs then filter (\<lambda>c. id_c c \<noteq> i) (bucket q k) else bucket q k)"
  by (simp add: bucket_def deleteMessageFromAllIndexes_def slice_at_fold_drop)

lemma bucket_Purge:
  "bucket (PurgeIndexedMessages i q) k = (if k = i then [] else bucket q k)"
  by (simp add: bucket_def PurgeIndexedMessages_def slice_at_def)

lemma allMessages_AddMessage:
  "allMessages (AddMessage uid m q) =
     (allMessages q)(uid \<mapsto> \<lparr>id_c = uid, msg = m, indexes = index_msg (indexFuncs q) m\<rparr>)"
  by (simp add: AddMessage_def Let_def)

lemma allMessages_delete:
  "allMessages (deleteMessageFromAllIndexes ixs i q) = (allMessages q)(i := None)"
  by (simp add: deleteMessageFromAllIndexes_def)

lemma allMessages_Purge: "allMessages (PurgeIndexedMessages i q) = allMessages q"
  by (simp add: PurgeIndexedMessages_def)


subsection \<open>Invariants of reachable brokers\<close>


lemma age_append_old: "u \<in> set h \<Longrightarrow> age (h @ [v]) u = age h u"
  by (induction h) (auto simp: age_def)

lemma age_append_new: "v \<notin> set h \<Longrightarrow> age (h @ [v]) v = length h"
  by (induction h) (auto simp: age_def)

lemma age_le: "age h u \<le> length h"
  by (simp add: age_def length_takeWhile_le)

lemma bucket_New: "bucket (New fs) idx = []"
  by (simp add: bucket_def New_def slice_at_def)

lemma indexFuncs_New: "indexFuncs (New fs) = fs"
  by (simp add: New_def)

lemma allMessages_New: "allMessages (New fs) u = None"
  by (simp add: New_def)

lemma broker_inv_New: "broker_inv [] (New fs)"
  by (simp add: broker_inv_def bucket_New)

lemma lookup_inv_New: "lookup_inv (New fs)"
  by (simp add: lookup_inv_def New_def)

lemma bucket_AddIndexFunc: "bucket (AddIndexFunc f q) idx = bucket q idx"
  by (simp add: bucket_def AddIndexFunc_def)

lemma broker_inv_AddIndexFunc: "broker_inv h q \<Longrightarrow> broker_inv h (AddIndexFunc f q)"
  by (simp add: broker_inv_def bucket_AddIndexFunc) (simp add: AddIndexFunc_def)

lemma lookup_inv_AddIndexFunc: "lookup_inv q \<Longrightarrow> lookup_inv (AddIndexFunc f q)"
  by (simp add: lookup_inv_def bucket_AddIndexFunc) (simp add: AddIndexFunc_def)

lemma sorted_age_append:
  assumes s: "sorted (map (\<lambda>c. age h (id_c c)) cs)"
    and old: "\<forall>c \<in> set cs. id_c c \<in> set h" and new: "uid \<notin> set h" and c: "id_c c' = uid"
  shows "sorted (map (\<lambda>c. age (h @ [uid]) (id_c c)) (cs @ replicate n c'))"
proof -
  have eq: "map (\<lambda>c. age (h @ [uid]) (id_c c)) cs = map (\<lambda>c. age h (id_c c)) cs"
    using old by (simp add: age_append_old)
  have "\<forall>c \<in> set cs. age h (id_c c) \<le> length h"
    by (simp add: age_le)
  then show ?thesis
    using s new c by (auto simp: sorted_append eq age_append_new sorted_replicate)
qed

lemma broker_inv_AddMessage:
  assumes inv: "broker_inv h q" and new: "uid \<notin> set h"
  shows "broker_inv (h @ [uid]) (AddMessage uid m q)"
  unfolding broker_inv_def
proof (intro conjI allI impI)
  fix idx c
  assume "c \<in> set (bucket (AddMessage uid m q) idx)"
  then consider (old) "c \<in> set (bucket q idx)"
    | (new) "c = \<lparr>id_c = uid, msg = m, indexes = index_msg (indexFuncs q) m\<rparr>"
        "idx \<in> set (index_msg (indexFuncs q) m)"
    by (auto simp: bucket_AddMessage count_list_0_iff split: if_splits)
  then have "allMessages (AddMessage uid m q) (id_c c) = Some c \<and> idx \<in> set (indexes c)
      \<and> id_c c \<in> set (h @ [uid])"
  proof cases
    case old
    with inv have "allMessages q (id_c c) = Some c" "idx \<in> set (indexes c)" "id_c c \<in> set h"
      by (auto simp: broker_inv_def)
    with new show ?thesis by (auto simp: allMessages_AddMessage)
  next
    case new
    then show ?thesis by (simp add: allMessages_AddMessage)
  qed
  then show "allMessages (AddMessage uid m q) (id_c c) = Some c" "idx \<in> set (indexes c)"
    "id_c c \<in> set (h @ [uid])" by simp_all
next
  fix idx
  from inv have "sorted (map (\<lambda>c. age h (id_c c)) (bucket q idx))"
    "\<forall>c \<in> set (bucket q idx). id_c c \<in> set h"
    by (auto simp: broker_inv_def)
  then show "sorted (map (\<lambda>c. age (h @ [uid]) (id_c c)) (bucket (AddMessage uid m q) idx))"
    using new unfolding bucket_AddMessage by (intro sorted_age_append) simp_all
qed

lemma lookup_inv_AddMessage:
  assumes "lookup_inv q"
  shows "lookup_inv (AddMessage uid m q)"
  using assms unfolding lookup_inv_def
  by (auto simp: allMessages_AddMessage bucket_AddMessage count_list_0_iff split: if_splits)

lemma broker_inv_delete:
  assumes inv: "broker_inv h q" and c0: "allMessages q i = Some c0"
  shows "broker_inv h (deleteMessageFromAllIndexes (indexes c0) i q)"
  unfolding broker_inv_def
proof (intro conjI allI impI)
  fix idx c
  assume a: "c \<in> set (bucket (deleteMessageFromAllIndexes (indexes c0) i q) idx)"
  then have c: "c \<in> set (bucket q idx)"
    by (auto simp: bucket_delete split: if_splits)
  with inv have f: "allMessages q (id_c c) = Some c" "idx \<in> set (indexes c)" "id_c c \<in> set h"
    by (auto simp: broker_inv_def)
  have "id_c c \<noteq> i"
  proof
    assume e: "id_c c = i"
    with f c0 have "c = c0" by simp
    with f have "idx \<in> set (indexes c0)" by simp
    with a e show False by (simp add: bucket_delete)
  qed
  with f show "allMessages (deleteMessageFromAllIndexes (indexes c0) i q) (id_c c) = Some c"
    "idx \<in> set (indexes c)" "id_c c \<in> set h"
    by (simp_all add: allMessages_delete)
next
  fix idx
  from inv have "sorted (map (\<lambda>c. age h (id_c c)) (bucket q idx))"
    by (simp add: broker_inv_def)
  then show "sorted (map (\<lambda>c. age h (id_c c))
      (bucket (deleteMessageFromAllIndexes (indexes c0) i q) idx))"
    by (simp add: bucket_delete sorted_filter)
qed

lemma lookup_inv_delete:
  assumes "lookup_inv q"
  shows "lookup_inv (deleteMessageFromAllIndexes ixs i q)"
  using assms unfolding lookup_inv_def
  by (auto simp: allMessages_delete bucket_delete split: if_splits)

lemma broker_inv_Pop:
  assumes inv: "broker_inv h q"
  shows "broker_inv h (snd (PopMessage idx q))"
proof (cases "bucket q idx")
  case Nil
  with inv show ?thesis by (simp add: PopMessage_def)
next
  case (Cons c cs)
  then have "c \<in> set (bucket q idx)" by simp
  with inv have "allMessages q (id_c c) = Some c" by (auto simp: broker_inv_def)
  with inv Cons show ?thesis by (simp add: PopMessage_def broker_inv_delete)
qed

lemma lookup_inv_Pop: "lookup_inv q \<Longrightarrow> lookup_inv (snd (PopMessage idx q))"
  by (simp add: PopMessage_def lookup_inv_delete split: list.splits)

lemma broker_inv_delete_if_found: "broker_inv h q \<Longrightarrow> broker_inv h (delete_if_found i q)"
  by (simp add: delete_if_found_def broker_inv_delete split: option.splits)

lemma lookup_inv_delete_if_found: "lookup_inv q \<Longrightarrow> lookup_inv (delete_if_found i q)"
  by (simp add: delete_if_found_def lookup_inv_delete split: option.splits)

lemma broker_inv_Delete: "broker_inv h q \<Longrightarrow> broker_inv h (DeleteMessagesWithIds ids q)"
  unfolding DeleteMessagesWithIds_def
  by (induction ids arbitrary: q) (simp_all add: broker_inv_delete_if_found)

lemma lookup_inv_Delete: "lookup_inv q \<Longrightarrow> lookup_inv (DeleteMessagesWithIds ids q)"
  unfolding DeleteMessagesWithIds_def
  by (induction ids arbitrary: q) (simp_all add: lookup_inv_delete_if_found)

lemma broker_inv_Purge: "broker_inv h q \<Longrightarrow> broker_inv h (PurgeIndexedMessages i q)"
  by (simp add: broker_inv_def bucket_Purge allMessages_Purge)

lemma reach_broker_inv: "reach p h q \<Longrightarrow> broker_inv h q"
  by (induction rule: reach.induct)
    (simp_all add: broker_inv_New broker_inv_AddIndexFunc broker_inv_AddMessage broker_inv_Pop
      broker_inv_Delete broker_inv_Purge)

lemma reach_lookup_inv: "reach False h q \<Longrightarrow> lookup_inv q"
  by (induction rule: reach.induct)
    (simp_all add: lookup_inv_New lookup_inv_AddIndexFunc lookup_inv_AddMessage lookup_inv_Pop
      lookup_inv_Delete)



lemma broker_invD:
  "broker_inv h q \<Longrightarrow> c \<in> set (bucket q idx) \<Longrightarrow>
     allMessages q (id_c c) = Some c \<and> idx \<in> set (indexes c) \<and> id_c c \<in> set h"
  by (simp add: broker_inv_def)

lemma fold_ids_lookup:
  assumes "\<forall>c' \<in> set cs. id_c c' = u \<longrightarrow> msg c' = v"
  shows "fold (\<lambda>cont ret. ret(id_c cont \<mapsto> msg cont)) cs r u =
     (if \<exists>c' \<in> set cs. id_c c' = u then Some v else r u)"
  using assms by (induction cs arbitrary: r) auto

lemma MessagesForIndex_inv:
  assumes inv: "broker_inv h q" and c: "c \<in> set (bucket q j)"
  shows "MessagesForIndex j q (id_c c) = Some (msg c)"
proof -
  have "\<forall>c' \<in> set (bucket q j). id_c c' = id_c c \<longrightarrow> msg c' = msg c"
  proof (intro ballI impI)
    fix c' assume "c' \<in> set (bucket q j)" "id_c c' = id_c c"
    with inv c have "Some c' = Some c" by (metis broker_inv_def)
    then show "msg c' = msg c" by simp
  qed
  from fold_ids_lookup [OF this] c show ?thesis
    by (auto simp: MessagesForIndex_def)
qed

lemma pops_reaches:
  assumes "broker_inv h q" and "c \<in> set (bucket q j)"
  shows "\<exists>k. fst (PopMessage j (pops k j q)) = Some (msg c)"
  using assms
proof (induction "length (bucket q j)" arbitrary: q rule: less_induct)
  case less
  from less.prems(2) obtain c0 cs where b: "bucket q j = c0 # cs"
    by (cases "bucket q j") auto
  show ?case
  proof (cases "c0 = c")
    case True
    with b have "fst (PopMessage j (pops 0 j q)) = Some (msg c)"
      by (simp add: PopMessage_def)
    then show ?thesis by blast
  next
    case False
    let ?q = "snd (PopMessage j q)"
    from b have "c0 \<in> set (bucket q j)" by simp
    with less.prems(1) have c0: "allMessages q (id_c c0) = Some c0" "j \<in> set (indexes c0)"
      by (auto dest: broker_invD)
    from less.prems have cc: "allMessages q (id_c c) = Some c"
      by (auto dest: broker_invD)
    from False c0 cc have ne: "id_c c \<noteq> id_c c0" by auto
    have bq: "bucket ?q j = filter (\<lambda>c'. id_c c' \<noteq> id_c c0) cs"
      using b c0 by (simp add: PopMessage_def bucket_delete)
    have "length (bucket ?q j) < length (bucket q j)"
      unfolding bq b by (simp add: le_imp_less_Suc)
    moreover have "broker_inv h ?q"
      using less.prems(1) by (rule broker_inv_Pop)
    moreover have "c \<in> set (bucket ?q j)"
      using less.prems(2) False ne unfolding bq b by auto
    ultimately obtain k where "fst (PopMessage j (pops k j ?q)) = Some (msg c)"
      using less.hyps by blast
    then have "fst (PopMessage j (pops (Suc k) j q)) = Some (msg c)" by simp
    then show ?thesis by blast
  qed
qed

lemma bucket_delete_inv:
  assumes inv: "broker_inv h q" and c: "allMessages q (id_c c) = Some c"
  shows "bucket (deleteMessageFromAllIndexes (indexes c) (id_c c) q) k =
    filter (\<lambda>c'. id_c c' \<noteq> id_c c) (bucket q k)"
proof (cases "k \<in> set (indexes c)")
  case True
  then show ?thesis by (simp add: bucket_delete)
next
  case False
  have "\<forall>c' \<in> set (bucket q k). id_c c' \<noteq> id_c c"
  proof
    fix c' assume a: "c' \<in> set (bucket q k)"
    show "id_c c' \<noteq> id_c c"
    proof
      assume e: "id_c c' = id_c c"
      from broker_invD [OF inv a]
      have f: "allMessages q (id_c c') = Some c'" "k \<in> set (indexes c')" by simp_all
      from f(1) c have "Some c' = Some c" unfolding e by simp
      then have "c' = c" by (simp only: option.inject)
      with f(2) False show False by simp
    qed
  qed
  then have "filter (\<lambda>c'. id_c c' \<noteq> id_c c) (bucket q k) = bucket q k"
    by (simp add: filter_id_conv)
  with False show ?thesis by (simp add: bucket_delete)
qed

subsection \<open>The cache-based draft: stores with expiry\<close>

lemma not_Expired_fresh: "\<not> Expired now \<lparr>Object = x, Expiration = now + defaultExpiration\<rparr>"
  by (simp add: Expired_def defaultExpiration_def)

lemma Expired_later: "Expired t item \<Longrightarrow> t \<le> t' \<Longrightarrow> Expired t' item"
  by (simp add: Expired_def)

lemma Get_SetDefault_same: "cache_Get now (cache_SetDefault now k x c) k = Some x"
  by (simp add: cache_Get_def cache_SetDefault_def not_Expired_fresh)

lemma Get_SetDefault_other: "k' \<noteq> k \<Longrightarrow> cache_Get t (cache_SetDefault now k x c) k' = cache_Get t c k'"
  by (simp add: cache_Get_def cache_SetDefault_def)

lemma slice_at_cache_held:
  "slice_at_cache t qu k = (if cache_Get t qu k = None then [] else held_in qu k)"
  by (auto simp: slice_at_cache_def cache_Get_def held_in_def split: option.splits)

lemma append_to_cache_at:
  "append_to_cache now c idx qu k =
     (if k = idx then Some \<lparr>Object = slice_at_cache now qu idx @ [c],
        Expiration = now + defaultExpiration\<rparr> else qu k)"
  by (simp add: append_to_cache_def cache_SetDefault_def)

lemma slice_at_cache_append:
  "slice_at_cache now (append_to_cache now c idx qu) k =
     (if k = idx then slice_at_cache now qu idx @ [c] else slice_at_cache now qu k)"
  by (simp add: slice_at_cache_def append_to_cache_def Get_SetDefault_same Get_SetDefault_other)

lemma fold_append_cache:
  "fold (append_to_cache now c) ixs qu k =
     (if k \<in> set ixs
      then Some \<lparr>Object = slice_at_cache now qu k @ replicate (count_list ixs k) c,
        Expiration = now + defaultExpiration\<rparr>
      else qu k)"
proof (induction ixs arbitrary: qu)
  case Nil
  show ?case by simp
next
  case (Cons x xs)
  have "fold (append_to_cache now c) (x # xs) qu k =
      fold (append_to_cache now c) xs (append_to_cache now c x qu) k"
    by simp
  also have "\<dots> =
     (if k \<in> set xs
      then Some \<lparr>Object = slice_at_cache now (append_to_cache now c x qu) k @
          replicate (count_list xs k) c, Expiration = now + defaultExpiration\<rparr>
      else append_to_cache now c x qu k)"
    by (rule Cons.IH)
  also have "\<dots> =
     (if k \<in> set (x # xs)
      then Some \<lparr>Object = slice_at_cache now qu k @ replicate (count_list (x # xs) k) c,
        Expiration = now + defaultExpiration\<rparr>
      else qu k)"
    by (simp add: slice_at_cache_append append_to_cache_at replicate_app_Cons_same)
  finally show ?case .
qed

lemma drop_id_cache_at:
  "drop_id_cache now i indx qu k =
     (if k = indx \<and> cache_Get now qu indx \<noteq> None
      then Some \<lparr>Object = filter (\<lambda>c. id_c c \<noteq> i) (slice_at_cache now qu indx),
        Expiration = now + defaultExpiration\<rparr>
      else qu k)"
  by (auto simp: drop_id_cache_def cache_SetDefault_def slice_at_cache_def split: option.splits)

lemma Get_drop_id_cache:
  "cache_Get now (drop_id_cache now i indx qu) k =
     (if k = indx then map_option (filter (\<lambda>c. id_c c \<noteq> i)) (cache_Get now qu indx)
      else cache_Get now qu k)"
  by (auto simp: drop_id_cache_def Get_SetDefault_same Get_SetDefault_other split: option.splits)

lemma fold_drop_cache:
  "fold (drop_id_cache now i) ixs qu k =
     (if k \<in> set ixs \<and> cache_Get now qu k \<noteq> None
      then Some \<lparr>Object = filter (\<lambda>c. id_c c \<noteq> i) (slice_at_cache now qu k),
        Expiration = now + defaultExpiration\<rparr>
      else qu k)"
proof (induction ixs arbitrary: qu)
  case Nil
  show ?case by simp
next
  case (Cons x xs)
  have "fold (drop_id_cache now i) (x # xs) qu k =
      fold (drop_id_cache now i) xs (drop_id_cache now i x qu) k"
    by simp
  also have "\<dots> =
     (if k \<in> set xs \<and> cache_Get now (drop_id_cache now i x qu) k \<noteq> None
      then Some \<lparr>Object = filter (\<lambda>c. id_c c \<noteq> i)
          (slice_at_cache now (drop_id_cache now i x qu) k),
        Expiration = now + defaultExpiration\<rparr>
      else drop_id_cache now i x qu k)"
    by (rule Cons.IH)
  also have "\<dots> =
     (if k \<in> set (x # xs) \<and> cache_Get now qu k \<noteq> None
      then Some \<lparr>Object = filter (\<lambda>c. id_c c \<noteq> i) (slice_at_cache now qu k),
        Expiration = now + defaultExpiration\<rparr>
      else qu k)"
    by (auto simp: Get_drop_id_cache drop_id_cache_at slice_at_cache_def split: option.splits)
  finally show ?case .
qed

lemma held_New_cache: "held (New_cache fs) k = []"
  by (simp add: held_def held_in_def New_cache_def)

lemma bucket_cache_held:
  "bucket_cache t q k = (if cache_Get t (q_c q) k = None then [] else held q k)"
  by (simp add: bucket_cache_def held_def slice_at_cache_held)

lemma bucket_cache_filter: "\<exists>P. bucket_cache t q k = filter P (held q k)"
proof (cases "cache_Get t (q_c q) k = None")
  case True
  then have "bucket_cache t q k = filter (\<lambda>c. False) (held q k)"
    by (simp add: bucket_cache_held)
  then show ?thesis by (rule exI [of _ "\<lambda>c. False"])
next
  case False
  then have "bucket_cache t q k = filter (\<lambda>c. True) (held q k)"
    by (auto simp add: bucket_cache_held)
  then show ?thesis by (rule exI [of _ "\<lambda>c. True"])
qed

lemma set_bucket_cache: "c \<in> set (bucket_cache t q k) \<Longrightarrow> c \<in> set (held q k)"
  by (simp add: bucket_cache_held split: if_splits)

lemma held_AddMessage_cache:
  "held (AddMessage_cache now uid m q) k =
     (if k \<in> set (index_msg (indexFuncs_c q) m)
      then bucket_cache now q k @ replicate (count_list (index_msg (indexFuncs_c q) m) k)
        \<lparr>id_c = uid, msg = m, indexes = index_msg (indexFuncs_c q) m\<rparr>
      else held q k)"
  by (simp add: held_def held_in_def AddMessage_cache_def Let_def fold_append_cache
      bucket_cache_def)

lemma held_delete_cache:
  "held (deleteMessageFromAllIndexes_cache now ixs i q) k =
     (if k \<in> set ixs \<and> cache_Get now (q_c q) k \<noteq> None
      then filter (\<lambda>c. id_c c \<noteq> i) (held q k) else held q k)"
proof (cases "k \<in> set ixs \<and> cache_Get now (q_c q) k \<noteq> None")
  case True
  then have "fold (drop_id_cache now i) ixs (q_c q) k =
      Some \<lparr>Object = filter (\<lambda>c. id_c c \<noteq> i) (held_in (q_c q) k),
        Expiration = now + defaultExpiration\<rparr>"
    by (auto simp add: fold_drop_cache slice_at_cache_held)
  then have "held_in (fold (drop_id_cache now i) ixs (q_c q)) k =
      filter (\<lambda>c. id_c c \<noteq> i) (held_in (q_c q) k)"
    by (simp add: held_in_def)
  with True show ?thesis
    by (simp add: held_def deleteMessageFromAllIndexes_cache_def)
next
  case False
  then have "fold (drop_id_cache now i) ixs (q_c q) k = q_c q k"
    by (auto simp add: fold_drop_cache)
  then have "held_in (fold (drop_id_cache now i) ixs (q_c q)) k = held_in (q_c q) k"
    by (simp add: held_in_def)
  with False show ?thesis
    by (auto simp add: held_def deleteMessageFromAllIndexes_cache_def)
qed

lemma held_delete_cache_filter:
  "\<exists>P. held (deleteMessageFromAllIndexes_cache now ixs i q) k = filter P (held q k)"
proof (cases "k \<in> set ixs \<and> cache_Get now (q_c q) k \<noteq> None")
  case True
  then have "held (deleteMessageFromAllIndexes_cache now ixs i q) k =
      filter (\<lambda>c. id_c c \<noteq> i) (held q k)"
    by (simp add: held_delete_cache)
  then show ?thesis by (rule exI [of _ "\<lambda>c. id_c c \<noteq> i"])
next
  case False
  then have "held (deleteMessageFromAllIndexes_cache now ixs i q) k = filter (\<lambda>c. True) (held q k)"
    by (auto simp add: held_delete_cache)
  then show ?thesis by (rule exI [of _ "\<lambda>c. True"])
qed

lemma Get_fold_drop_same_time:
  "cache_Get now (fold (drop_id_cache now i) ixs qu) k =
     (if k \<in> set ixs then map_option (filter (\<lambda>c. id_c c \<noteq> i)) (cache_Get now qu k)
      else cache_Get now qu k)"
proof (cases "k \<in> set ixs \<and> cache_Get now qu k \<noteq> None")
  case True
  then obtain cs where cs: "cache_Get now qu k = Some cs" by auto
  then have "slice_at_cache now qu k = cs" by (simp add: slice_at_cache_def)
  with True cs show ?thesis
    by (simp add: cache_Get_def [of now "fold (drop_id_cache now i) ixs qu"] fold_drop_cache
        not_Expired_fresh)
next
  case False
  then have "fold (drop_id_cache now i) ixs qu k = qu k"
    by (auto simp add: fold_drop_cache)
  then have "cache_Get now (fold (drop_id_cache now i) ixs qu) k = cache_Get now qu k"
    by (simp add: cache_Get_def)
  with False show ?thesis by auto
qed

lemma bucket_cache_delete:
  "bucket_cache now (deleteMessageFromAllIndexes_cache now ixs i q) k =
     (if k \<in> set ixs then filter (\<lambda>c. id_c c \<noteq> i) (bucket_cache now q k)
      else bucket_cache now q k)"
  by (simp add: bucket_cache_def slice_at_cache_def deleteMessageFromAllIndexes_cache_def
      Get_fold_drop_same_time split: option.splits)

lemma held_Purge_cache:
  "held (PurgeIndexedMessages_cache now i q) k = (if k = i then [] else held q k)"
  by (simp add: held_def held_in_def PurgeIndexedMessages_cache_def cache_SetDefault_def)

lemma bucket_cache_Purge:
  "bucket_cache t (PurgeIndexedMessages_cache now i q) k =
     (if k = i then [] else bucket_cache t q k)"
  by (simp add: bucket_cache_def slice_at_cache_def PurgeIndexedMessages_cache_def
      cache_Get_def cache_SetDefault_def)

lemma held_janitor_q: "held (janitor_q now q) k = bucket_cache now q k"
  by (simp add: held_def held_in_def janitor_q_def cache_DeleteExpired_def bucket_cache_def
      slice_at_cache_def cache_Get_def split: option.splits)

lemma held_janitor_msgs: "held (janitor_msgs now q) k = held q k"
  by (simp add: held_def janitor_msgs_def)

lemma held_AddIndexFunc_cache: "held (AddIndexFunc_cache f q) k = held q k"
  by (simp add: held_def AddIndexFunc_cache_def)

lemma cache_invD:
  assumes "cache_inv h q" and "c \<in> set (held q idx)"
  shows "idx \<in> set (indexes c)" and "id_c c \<in> set h"
  using assms by (simp_all add: cache_inv_def)

lemma cache_inv_same_id:
  assumes "cache_inv h q" and "c \<in> set (held q idx)" and "c' \<in> set (held q idx')"
    and "id_c c = id_c c'"
  shows "c = c'"
  using assms unfolding cache_inv_def by blast

lemma cache_inv_sorted: "cache_inv h q \<Longrightarrow> sorted (map (\<lambda>c. age h (id_c c)) (held q idx))"
  by (simp add: cache_inv_def)

lemma cache_inv_filtered:
  assumes inv: "cache_inv h q" and f: "\<And>k. \<exists>P. held q' k = filter P (held q k)"
  shows "cache_inv h q'"
proof -
  have sub: "c \<in> set (held q k)" if "c \<in> set (held q' k)" for c k
  proof -
    from f obtain P where "held q' k = filter P (held q k)" by blast
    with that show ?thesis by simp
  qed
  show ?thesis
    unfolding cache_inv_def
  proof (intro conjI allI impI)
    fix idx c assume "c \<in> set (held q' idx)"
    then have "c \<in> set (held q idx)" by (rule sub)
    with inv show "idx \<in> set (indexes c)" "id_c c \<in> set h"
      by (simp_all add: cache_invD)
  next
    fix idx idx' c c'
    assume "c \<in> set (held q' idx) \<and> c' \<in> set (held q' idx') \<and> id_c c = id_c c'"
    then have "c \<in> set (held q idx)" "c' \<in> set (held q idx')" "id_c c = id_c c'"
      by (simp_all add: sub)
    with inv show "c = c'" by (rule cache_inv_same_id)
  next
    fix idx
    from f obtain P where P: "held q' idx = filter P (held q idx)" by blast
    from inv have "sorted (map (\<lambda>c. age h (id_c c)) (held q idx))"
      by (rule cache_inv_sorted)
    then show "sorted (map (\<lambda>c. age h (id_c c)) (held q' idx))"
      unfolding P by (rule sorted_filter)
  qed
qed

lemma cache_inv_same:
  assumes "cache_inv h q" and "\<And>k. held q' k = held q k"
  shows "cache_inv h q'"
  using assms(1) unfolding cache_inv_def assms(2) .

lemma cache_inv_New: "cache_inv [] (New_cache fs)"
  by (simp add: cache_inv_def held_New_cache)

lemma cache_inv_delete:
  "cache_inv h q \<Longrightarrow> cache_inv h (deleteMessageFromAllIndexes_cache now ixs i q)"
  by (erule cache_inv_filtered) (rule held_delete_cache_filter)

lemma cache_inv_Pop: "cache_inv h q \<Longrightarrow> cache_inv h (snd (PopMessage_cache now idx q))"
  by (simp add: PopMessage_cache_def cache_inv_delete split: option.splits list.splits)

lemma cache_inv_delete_if_found:
  "cache_inv h q \<Longrightarrow> cache_inv h (delete_if_found_cache now i q)"
  by (simp add: delete_if_found_cache_def cache_inv_delete split: option.splits)

lemma cache_inv_Delete: "cache_inv h q \<Longrightarrow> cache_inv h (DeleteMessagesWithIds_cache now ids q)"
  unfolding DeleteMessagesWithIds_cache_def
  by (induction ids arbitrary: q) (simp_all add: cache_inv_delete_if_found)

lemma cache_inv_Purge: "cache_inv h q \<Longrightarrow> cache_inv h (PurgeIndexedMessages_cache now i q)"
proof (erule cache_inv_filtered)
  fix k
  have "held (PurgeIndexedMessages_cache now i q) k =
      filter (\<lambda>c. k \<noteq> i) (held q k)"
    by (simp add: held_Purge_cache)
  then show "\<exists>P. held (PurgeIndexedMessages_cache now i q) k = filter P (held q k)"
    by (rule exI [of _ "\<lambda>c. k \<noteq> i"])
qed

lemma cache_inv_janitor_q: "cache_inv h q \<Longrightarrow> cache_inv h (janitor_q now q)"
  by (erule cache_inv_filtered) (simp add: held_janitor_q bucket_cache_filter)

lemma cache_inv_janitor_msgs: "cache_inv h q \<Longrightarrow> cache_inv h (janitor_msgs now q)"
  by (erule cache_inv_same) (rule held_janitor_msgs)

lemma cache_inv_AddIndexFunc: "cache_inv h q \<Longrightarrow> cache_inv h (AddIndexFunc_cache f q)"
  by (erule cache_inv_same) (rule held_AddIndexFunc_cache)

lemma cache_inv_AddMessage:
  assumes inv: "cache_inv h q" and new: "uid \<notin> set h"
  shows "cache_inv (h @ [uid]) (AddMessage_cache now uid m q)"
proof -
  let ?ixs = "index_msg (indexFuncs_c q) m"
  let ?c = "\<lparr>id_c = uid, msg = m, indexes = ?ixs\<rparr>"
  let ?q = "AddMessage_cache now uid m q"
  have mem: "c \<in> set (held q k) \<or> (c = ?c \<and> k \<in> set ?ixs)" if "c \<in> set (held ?q k)" for c k
    using that set_bucket_cache [of c now q k]
    by (auto simp: held_AddMessage_cache split: if_splits)
  have old: "id_c c \<in> set h" "k \<in> set (indexes c)" if "c \<in> set (held q k)" for c k
    using inv that by (simp_all add: cache_invD)
  show ?thesis
    unfolding cache_inv_def
  proof (intro conjI allI impI)
    fix idx c assume "c \<in> set (held ?q idx)"
    from mem [OF this] show "idx \<in> set (indexes c)" "id_c c \<in> set (h @ [uid])"
      using old by auto
  next
    fix idx idx' c c'
    assume a: "c \<in> set (held ?q idx) \<and> c' \<in> set (held ?q idx') \<and> id_c c = id_c c'"
    then have e: "id_c c = id_c c'" by simp
    from a mem have "c \<in> set (held q idx) \<or> (c = ?c \<and> idx \<in> set ?ixs)"
      "c' \<in> set (held q idx') \<or> (c' = ?c \<and> idx' \<in> set ?ixs)"
      by simp_all
    then consider (oo) "c \<in> set (held q idx)" "c' \<in> set (held q idx')"
      | (on) "c \<in> set (held q idx)" "c' = ?c" | (no) "c = ?c" "c' \<in> set (held q idx')"
      | (nn) "c = ?c" "c' = ?c"
      by blast
    then show "c = c'"
    proof cases
      case oo
      from inv oo e show ?thesis by (rule cache_inv_same_id)
    next
      case on
      from on(1) have "id_c c \<in> set h" by (rule old)
      with on(2) e new show ?thesis by simp
    next
      case no
      from no(2) have "id_c c' \<in> set h" by (rule old)
      with no(1) e new show ?thesis by simp
    next
      case nn
      then show ?thesis by simp
    qed
  next
    fix idx
    obtain P where P: "bucket_cache now q idx = filter P (held q idx)"
      using bucket_cache_filter by blast
    from inv have "sorted (map (\<lambda>c. age h (id_c c)) (held q idx))"
      by (rule cache_inv_sorted)
    then have s: "sorted (map (\<lambda>c. age h (id_c c)) (bucket_cache now q idx))"
      unfolding P by (rule sorted_filter)
    have o: "\<forall>c \<in> set (bucket_cache now q idx). id_c c \<in> set h"
      using old set_bucket_cache by blast
    show "sorted (map (\<lambda>c. age (h @ [uid]) (id_c c)) (held ?q idx))"
    proof (cases "idx \<in> set ?ixs")
      case True
      then have "held ?q idx = bucket_cache now q idx @ replicate (count_list ?ixs idx) ?c"
        by (simp add: held_AddMessage_cache)
      moreover have "sorted (map (\<lambda>c. age (h @ [uid]) (id_c c))
          (bucket_cache now q idx @ replicate (count_list ?ixs idx) ?c))"
        using s o new by (intro sorted_age_append) simp_all
      ultimately show ?thesis by simp
    next
      case False
      then have "held ?q idx = held q idx"
        by (simp add: held_AddMessage_cache)
      moreover have "sorted (map (\<lambda>c. age (h @ [uid]) (id_c c)) (held q idx @ replicate 0 ?c))"
        using cache_inv_sorted [OF inv] old new by (intro sorted_age_append) simp_all
      ultimately show ?thesis by simp
    qed
  qed
qed

lemma reach_cache_inv: "reach_cache h q \<Longrightarrow> cache_inv h q"
  by (induction rule: reach_cache.induct)
    (simp_all add: cache_inv_New cache_inv_AddIndexFunc cache_inv_AddMessage cache_inv_Pop
      cache_inv_Delete cache_inv_Purge cache_inv_janitor_q cache_inv_janitor_msgs)

lemma MessagesForIndex_cache_bucket:
  "MessagesForIndex_cache t j q =
     fold (\<lambda>cont ret. ret(id_c cont \<mapsto> msg cont)) (bucket_cache t q j) Map.empty"
  by (simp add: MessagesForIndex_cache_def bucket_cache_def slice_at_cache_def
      split: option.splits)

lemma PopMessage_cache_Nil:
  "bucket_cache t q idx = [] \<Longrightarrow> PopMessage_cache t idx q = (None, q)"
  by (simp add: PopMessage_cache_def bucket_cache_def slice_at_cache_def
      split: option.splits list.splits)

lemma PopMessage_cache_Cons:
  "bucket_cache t q idx = c # cs \<Longrightarrow>
     PopMessage_cache t idx q =
       (Some (msg c), deleteMessageFromAllIndexes_cache t (indexes c) (id_c c) q)"
  by (simp add: PopMessage_cache_def bucket_cache_def slice_at_cache_def
      split: option.splits list.splits)

lemma cache_inv_bucketD:
  assumes "cache_inv h q" and "c \<in> set (bucket_cache t q idx)"
  shows "idx \<in> set (indexes c)" and "id_c c \<in> set h"
  using assms set_bucket_cache cache_invD by blast+

lemma cache_inv_bucket_same_id:
  assumes "cache_inv h q" and "c \<in> set (bucket_cache t q idx)"
    and "c' \<in> set (bucket_cache t' q idx')" and "id_c c = id_c c'"
  shows "c = c'"
proof -
  from assms(2) have "c \<in> set (held q idx)" by (rule set_bucket_cache)
  moreover from assms(3) have "c' \<in> set (held q idx')" by (rule set_bucket_cache)
  ultimately show ?thesis using assms(1,4) cache_inv_same_id by blast
qed

lemma MessagesForIndex_cache_inv:
  assumes inv: "cache_inv h q" and c: "c \<in> set (bucket_cache t q j)"
  shows "MessagesForIndex_cache t j q (id_c c) = Some (msg c)"
proof -
  have "\<forall>c' \<in> set (bucket_cache t q j). id_c c' = id_c c \<longrightarrow> msg c' = msg c"
  proof (intro ballI impI)
    fix c' assume "c' \<in> set (bucket_cache t q j)" "id_c c' = id_c c"
    with inv c have "c' = c" using cache_inv_bucket_same_id by metis
    then show "msg c' = msg c" by simp
  qed
  from fold_ids_lookup [OF this] c show ?thesis
    by (auto simp: MessagesForIndex_cache_bucket)
qed

lemma pops_cache_reaches:
  assumes "cache_inv h q" and "c \<in> set (bucket_cache t q j)"
  shows "\<exists>k. fst (PopMessage_cache t j (pops_cache k t j q)) = Some (msg c)"
  using assms
proof (induction "length (bucket_cache t q j)" arbitrary: q rule: less_induct)
  case less
  from less.prems(2) obtain c0 cs where b: "bucket_cache t q j = c0 # cs"
    by (cases "bucket_cache t q j") auto
  show ?case
  proof (cases "c0 = c")
    case True
    with b have "fst (PopMessage_cache t j (pops_cache 0 t j q)) = Some (msg c)"
      by (simp add: PopMessage_cache_Cons)
    then show ?thesis by blast
  next
    case False
    let ?q = "snd (PopMessage_cache t j q)"
    from b have c0: "c0 \<in> set (bucket_cache t q j)" by simp
    with less.prems(1) have j: "j \<in> set (indexes c0)"
      by (rule cache_inv_bucketD)
    have ne: "id_c c \<noteq> id_c c0"
    proof
      assume "id_c c = id_c c0"
      with less.prems c0 have "c = c0" using cache_inv_bucket_same_id by metis
      with False show False by simp
    qed
    have bq: "bucket_cache t ?q j = filter (\<lambda>c'. id_c c' \<noteq> id_c c0) cs"
      using b j by (simp add: PopMessage_cache_Cons bucket_cache_delete)
    have "length (bucket_cache t ?q j) < length (bucket_cache t q j)"
      unfolding bq b by (simp add: le_imp_less_Suc)
    moreover have "cache_inv h ?q"
      using less.prems(1) by (rule cache_inv_Pop)
    moreover have "c \<in> set (bucket_cache t ?q j)"
      using less.prems(2) False ne unfolding bq b by auto
    ultimately obtain k where "fst (PopMessage_cache t j (pops_cache k t j ?q)) = Some (msg c)"
      using less.hyps by blast
    then have "fst (PopMessage_cache t j (pops_cache (Suc k) t j q)) = Some (msg c)" by simp
    then show ?thesis by blast
  qed
qed

lemma bucket_cache_delete_inv:
  assumes inv: "cache_inv h q" and c: "c \<in> set (bucket_cache t q idx)"
  shows "bucket_cache t (deleteMessageFromAllIndexes_cache t (indexes c) (id_c c) q) k =
    filter (\<lambda>c'. id_c c' \<noteq> id_c c) (bucket_cache t q k)"
proof (cases "k \<in> set (indexes c)")
  case True
  then show ?thesis by (simp add: bucket_cache_delete)
next
  case False
  have "\<forall>c' \<in> set (bucket_cache t q k). id_c c' \<noteq> id_c c"
  proof
    fix c' assume a: "c' \<in> set (bucket_cache t q k)"
    show "id_c c' \<noteq> id_c c"
    proof
      assume e: "id_c c' = id_c c"
      with inv a c have "c' = c" using cache_inv_bucket_same_id by metis
      moreover from inv a have "k \<in> set (indexes c')" by (rule cache_inv_bucketD)
      ultimately show False using False by simp
    qed
  qed
  then have "filter (\<lambda>c'. id_c c' \<noteq> id_c c) (bucket_cache t q k) = bucket_cache t q k"
    by (simp add: filter_id_conv)
  with False show ?thesis by (simp add: bucket_cache_delete)
qed

lemma q_c_delete_skipped:
  assumes "\<not> (k \<in> set ixs \<and> cache_Get t (q_c q) k \<noteq> None)"
  shows "q_c (deleteMessageFromAllIndexes_cache t ixs i q) k = q_c q k"
  using assms by (auto simp add: deleteMessageFromAllIndexes_cache_def fold_drop_cache)

lemma cache_Get_later:
  assumes "cache_Get t qu k = None" and "t \<le> t'"
  shows "cache_Get t' qu k = None"
proof (cases "qu k")
  case None
  then show ?thesis by (simp add: cache_Get_def)
next
  case (Some item)
  with assms(1) have "Expired t item"
    by (simp add: cache_Get_def split: if_splits)
  then have "Expired t' item" using assms(2) by (rule Expired_later)
  with Some show ?thesis by (simp add: cache_Get_def)
qed

lemma bucket_cache_delete_later:
  assumes inv: "cache_inv h q" and c: "c \<in> set (bucket_cache t q idx)" and le: "t \<le> t'"
    and c': "c' \<in> set (bucket_cache t' (deleteMessageFromAllIndexes_cache t (indexes c) (id_c c) q) k)"
  shows "id_c c' \<noteq> id_c c"
proof (cases "k \<in> set (indexes c) \<and> cache_Get t (q_c q) k \<noteq> None")
  case True
  from c' have "c' \<in> set (held (deleteMessageFromAllIndexes_cache t (indexes c) (id_c c) q) k)"
    by (rule set_bucket_cache)
  with True show ?thesis by (simp add: held_delete_cache)
next
  case False
  let ?q = "deleteMessageFromAllIndexes_cache t (indexes c) (id_c c) q"
  from False have same: "q_c ?q k = q_c q k" by (rule q_c_delete_skipped)
  then have b: "bucket_cache t' ?q k = bucket_cache t' q k"
    by (simp add: bucket_cache_def slice_at_cache_def cache_Get_def)
  show ?thesis
  proof (cases "k \<in> set (indexes c)")
    case True
    with False have "cache_Get t (q_c q) k = None" by simp
    then have "cache_Get t' (q_c q) k = None" using le by (rule cache_Get_later)
    then have "bucket_cache t' q k = []" by (simp add: bucket_cache_held)
    with c' b show ?thesis by simp
  next
    case nk: False
    show ?thesis
    proof
      assume e: "id_c c' = id_c c"
      from c' b have a: "c' \<in> set (bucket_cache t' q k)" by simp
      with inv c e have "c' = c" using cache_inv_bucket_same_id by metis
      moreover from inv a have "k \<in> set (indexes c')" by (rule cache_inv_bucketD)
      ultimately show False using nk by simp
    qed
  qed
qed

lemma msgs_c_delete:
  "msgs_c (deleteMessageFromAllIndexes_cache t ixs i q) = (msgs_c q)(i := None)"
  by (simp add: deleteMessageFromAllIndexes_cache_def cache_Delete_def)

lemma msgs_c_Purge: "msgs_c (PurgeIndexedMessages_cache now i q) = msgs_c q"
  by (simp add: PurgeIndexedMessages_cache_def)

lemma q_c_Purge_other: "k \<noteq> i \<Longrightarrow> q_c (PurgeIndexedMessages_cache now i q) k = q_c q k"
  by (simp add: PurgeIndexedMessages_cache_def cache_SetDefault_def)

lemma PopMessage_cache_oldest:
  assumes r: "reach_cache h q" and ne: "bucket_cache t q idx \<noteq> []"
  shows "\<exists>c. fst (PopMessage_cache t idx q) = Some (msg c) \<and>
        c \<in> set (bucket_cache t q idx) \<and> idx \<in> set (indexes c) \<and>
        (\<forall>c' \<in> set (bucket_cache t q idx). age h (id_c c) \<le> age h (id_c c')) \<and>
        (\<forall>k. bucket_cache t (snd (PopMessage_cache t idx q)) k =
            filter (\<lambda>c'. id_c c' \<noteq> id_c c) (bucket_cache t q k)) \<and>
        (\<forall>t' k. t \<le> t' \<longrightarrow>
            (\<forall>c' \<in> set (bucket_cache t' (snd (PopMessage_cache t idx q)) k).
               id_c c' \<noteq> id_c c)) \<and>
        msgs_c (snd (PopMessage_cache t idx q)) = (msgs_c q)(id_c c := None)"
proof -
  from ne obtain c cs where b: "bucket_cache t q idx = c # cs"
    by (cases "bucket_cache t q idx") auto
  from r have inv: "cache_inv h q" by (rule reach_cache_inv)
  from b have cin: "c \<in> set (bucket_cache t q idx)" by simp
  with inv have ix: "idx \<in> set (indexes c)" by (rule cache_inv_bucketD)
  obtain P where P: "bucket_cache t q idx = filter P (held q idx)"
    using bucket_cache_filter by blast
  from inv have "sorted (map (\<lambda>c. age h (id_c c)) (held q idx))"
    by (rule cache_inv_sorted)
  then have "sorted (map (\<lambda>c. age h (id_c c)) (bucket_cache t q idx))"
    unfolding P by (rule sorted_filter)
  with b have old: "\<forall>c' \<in> set (bucket_cache t q idx). age h (id_c c) \<le> age h (id_c c')"
    by auto
  have pop: "PopMessage_cache t idx q =
      (Some (msg c), deleteMessageFromAllIndexes_cache t (indexes c) (id_c c) q)"
    using b by (rule PopMessage_cache_Cons)
  have bk: "\<forall>k. bucket_cache t (snd (PopMessage_cache t idx q)) k =
      filter (\<lambda>c'. id_c c' \<noteq> id_c c) (bucket_cache t q k)"
    using bucket_cache_delete_inv [OF inv cin] by (simp add: pop)
  have later: "\<forall>t' k. t \<le> t' \<longrightarrow>
      (\<forall>c' \<in> set (bucket_cache t' (snd (PopMessage_cache t idx q)) k). id_c c' \<noteq> id_c c)"
    using bucket_cache_delete_later [OF inv cin] by (simp add: pop)
  have ms: "msgs_c (snd (PopMessage_cache t idx q)) = (msgs_c q)(id_c c := None)"
    by (simp add: pop msgs_c_delete)
  show ?thesis
  proof (intro exI [of _ c] conjI)
    show "fst (PopMessage_cache t idx q) = Some (msg c)" by (simp add: pop)
  qed (rule cin ix old bk later ms)+
qed


subsection \<open>The example brokers\<close>


lemma indexFuncs_AddMessage: "indexFuncs (AddMessage uid m q) = indexFuncs q"
  by (simp add: AddMessage_def Let_def)

lemma reach_two_key: "reach p [''u1''] two_key_broker"
proof -
  have "reach p ([] @ [''u1'']) (AddMessage ''u1'' (2::nat) (New [specific_index, all_rounds_index]))"
    by (rule reach_Add [OF reach_New]) simp
  then show ?thesis
    by (simp add: two_key_broker_def)
qed

lemma reach_two_message: "reach p [''u1'', ''u2''] two_message_broker"
proof -
  have "reach p ([''u1''] @ [''u2'']) (AddMessage ''u2'' (3::nat) two_key_broker)"
    by (rule reach_Add [OF reach_two_key]) simp
  then show ?thesis
    by (simp add: two_message_broker_def)
qed

lemma bucket_two_message:
  "bucket two_message_broker ''change-round-all/L/1'' =
     [\<lparr>id_c = ''u1'', msg = 2, indexes = [''ibft/L/1/2/CR'', ''change-round-all/L/1'']\<rparr>,
      \<lparr>id_c = ''u2'', msg = 3, indexes = [''change-round-all/L/1'']\<rparr>]"
  by (simp add: two_message_broker_def two_key_broker_def bucket_AddMessage bucket_New
      indexFuncs_AddMessage indexFuncs_New index_msg_def specific_index_def all_rounds_index_def)


lemma reach_cache_two_key: "reach_cache [''u1''] two_key_cache"
proof -
  have "reach_cache ([] @ [''u1''])
      (AddMessage_cache 0 ''u1'' (2::nat) (New_cache [specific_index, all_rounds_index]))"
    by (rule reach_cache_Add [OF reach_cache_New]) simp
  then show ?thesis
    by (simp add: two_key_cache_def)
qed

lemma reach_cache_two_message: "reach_cache [''u1'', ''u2''] two_message_cache"
proof -
  have "reach_cache ([''u1''] @ [''u2'']) (AddMessage_cache 5 ''u2'' (3::nat) two_key_cache)"
    by (rule reach_cache_Add [OF reach_cache_two_key]) simp
  then show ?thesis
    by (simp add: two_message_cache_def)
qed

lemma indexFuncs_c_AddMessage_cache:
  "indexFuncs_c (AddMessage_cache now uid m q) = indexFuncs_c q"
  by (simp add: AddMessage_cache_def Let_def)

lemma q_c_two_key_cache:
  "q_c two_key_cache =
     [''ibft/L/1/2/CR'' \<mapsto> \<lparr>Object = [\<lparr>id_c = ''u1'', msg = 2,
          indexes = [''ibft/L/1/2/CR'', ''change-round-all/L/1'']\<rparr>], Expiration = 600000000000\<rparr>,
      ''change-round-all/L/1'' \<mapsto> \<lparr>Object = [\<lparr>id_c = ''u1'', msg = 2,
          indexes = [''ibft/L/1/2/CR'', ''change-round-all/L/1'']\<rparr>], Expiration = 600000000000\<rparr>]"
  by (simp add: two_key_cache_def AddMessage_cache_def Let_def New_cache_def index_msg_def
      specific_index_def all_rounds_index_def append_to_cache_def cache_SetDefault_def
      slice_at_cache_def cache_Get_def defaultExpiration_def Expired_def)

lemma bucket_two_key_cache:
  "bucket_cache 9 two_key_cache ''ibft/L/1/2/CR'' =
     [\<lparr>id_c = ''u1'', msg = 2, indexes = [''ibft/L/1/2/CR'', ''change-round-all/L/1'']\<rparr>]"
  by (simp add: bucket_cache_def slice_at_cache_def cache_Get_def q_c_two_key_cache Expired_def)

text \<open>
  Ten minutes after its last write a bucket of the second draft shows nothing, and
  \<open>PopMessage\<close> finds no message there.
\<close>

lemma bucket_cache_expires:
  "bucket_cache 600000000000 two_key_cache ''change-round-all/L/1'' =
     [\<lparr>id_c = ''u1'', msg = 2, indexes = [''ibft/L/1/2/CR'', ''change-round-all/L/1'']\<rparr>] \<and>
   bucket_cache 600000000001 two_key_cache ''change-round-all/L/1'' = [] \<and>
   PopMessage_cache 600000000001 ''change-round-all/L/1'' two_key_cache = (None, two_key_cache)"
  by (simp add: bucket_cache_def slice_at_cache_def cache_Get_def q_c_two_key_cache Expired_def
      PopMessage_cache_def)

lemma bucket_two_message_cache:
  "bucket_cache 9 two_message_cache ''change-round-all/L/1'' =
     [\<lparr>id_c = ''u1'', msg = 2, indexes = [''ibft/L/1/2/CR'', ''change-round-all/L/1'']\<rparr>,
      \<lparr>id_c = ''u2'', msg = 3, indexes = [''change-round-all/L/1'']\<rparr>]"
  by (simp add: two_message_cache_def bucket_cache_def AddMessage_cache_def Let_def
      indexFuncs_c_AddMessage_cache [of 0 "''u1''" 2, folded two_key_cache_def]
      q_c_two_key_cache index_msg_def
      specific_index_def all_rounds_index_def append_to_cache_def cache_SetDefault_def
      slice_at_cache_def cache_Get_def defaultExpiration_def Expired_def
      two_key_cache_def [THEN arg_cong [of _ _ indexFuncs_c]] New_cache_def)


lemma reach_purged: "reach True [''u1'', ''u2''] purged_broker"
proof -
  have "reach True [''u1''] (PurgeIndexedMessages ''change-round-all/L/1'' two_key_broker)"
    by (rule reach_Purge [OF _ reach_two_key]) simp
  then have "reach True ([''u1''] @ [''u2''])
      (AddMessage ''u2'' (3::nat) (PurgeIndexedMessages ''change-round-all/L/1'' two_key_broker))"
    by (rule reach_Add) simp
  then show ?thesis
    by (simp add: purged_broker_def)
qed

lemma indexFuncs_Purge: "indexFuncs (PurgeIndexedMessages i q) = indexFuncs q"
  by (simp add: PurgeIndexedMessages_def)


subsection \<open>Purging one bucket\<close>

text \<open>
  Claim C1, for both drafts of the broker. In a broker that a run has reached, let the
  container of a message sit in the bucket of \<open>j\<close>, with \<open>i\<close> another of its index
  keys. After \<open>PurgeIndexedMessages i\<close> the bucket of \<open>i\<close> is empty, every other bucket
  and the id lookup are as before, \<open>MessagesForIndex j\<close> still maps the container's id
  to the message, and popping from \<open>j\<close> often enough returns the message. In the
  cache-based draft the purge happens at the time \<open>now\<close>, the container is in what the
  store shows of the bucket of \<open>j\<close> at the time \<open>t\<close>, the bucket of \<open>i\<close> is empty at
  every time afterwards, and every other bucket shows at every time what it showed
  without the purge.
\<close>

theorem PurgeIndexedMessages_frame:
  "(reach p h q \<and> i \<noteq> j \<and> i \<in> set (indexes c) \<and> c \<in> set (bucket q j) \<longrightarrow>
      bucket (PurgeIndexedMessages i q) i = [] \<and>
      (\<forall>k. k \<noteq> i \<longrightarrow> bucket (PurgeIndexedMessages i q) k = bucket q k) \<and>
      allMessages (PurgeIndexedMessages i q) = allMessages q \<and>
      c \<in> set (bucket (PurgeIndexedMessages i q) j) \<and>
      MessagesForIndex j (PurgeIndexedMessages i q) (id_c c) = Some (msg c) \<and>
      (\<exists>k. fst (PopMessage j (pops k j (PurgeIndexedMessages i q))) = Some (msg c))) \<and>
   (reach_cache h' q' \<and> i \<noteq> j \<and> i \<in> set (indexes c') \<and> c' \<in> set (bucket_cache t q' j) \<longrightarrow>
      (\<forall>t'. bucket_cache t' (PurgeIndexedMessages_cache now i q') i = []) \<and>
      (\<forall>k t'. k \<noteq> i \<longrightarrow>
          bucket_cache t' (PurgeIndexedMessages_cache now i q') k = bucket_cache t' q' k) \<and>
      (\<forall>k. k \<noteq> i \<longrightarrow> q_c (PurgeIndexedMessages_cache now i q') k = q_c q' k) \<and>
      msgs_c (PurgeIndexedMessages_cache now i q') = msgs_c q' \<and>
      c' \<in> set (bucket_cache t (PurgeIndexedMessages_cache now i q') j) \<and>
      MessagesForIndex_cache t j (PurgeIndexedMessages_cache now i q') (id_c c') = Some (msg c') \<and>
      (\<exists>k. fst (PopMessage_cache t j (pops_cache k t j (PurgeIndexedMessages_cache now i q')))
          = Some (msg c')))"
proof (rule conjI; rule impI; elim conjE)
  assume a: "reach p h q" "i \<noteq> j" "c \<in> set (bucket q j)"
  let ?q = "PurgeIndexedMessages i q"
  from a(1) have "broker_inv h q" by (rule reach_broker_inv)
  then have inv: "broker_inv h ?q" by (rule broker_inv_Purge)
  from a(2,3) have c: "c \<in> set (bucket ?q j)" by (simp add: bucket_Purge)
  from inv c have "MessagesForIndex j ?q (id_c c) = Some (msg c)"
    by (rule MessagesForIndex_inv)
  moreover from inv c have "\<exists>k. fst (PopMessage j (pops k j ?q)) = Some (msg c)"
    by (rule pops_reaches)
  ultimately show "bucket ?q i = [] \<and>
      (\<forall>k. k \<noteq> i \<longrightarrow> bucket ?q k = bucket q k) \<and>
      allMessages ?q = allMessages q \<and>
      c \<in> set (bucket ?q j) \<and>
      MessagesForIndex j ?q (id_c c) = Some (msg c) \<and>
      (\<exists>k. fst (PopMessage j (pops k j ?q)) = Some (msg c))"
    using c by (simp add: bucket_Purge allMessages_Purge)
next
  assume a: "reach_cache h' q'" "i \<noteq> j" "c' \<in> set (bucket_cache t q' j)"
  let ?q = "PurgeIndexedMessages_cache now i q'"
  from a(1) have "cache_inv h' q'" by (rule reach_cache_inv)
  then have inv: "cache_inv h' ?q" by (rule cache_inv_Purge)
  from a(2,3) have c: "c' \<in> set (bucket_cache t ?q j)" by (simp add: bucket_cache_Purge)
  from inv c have "MessagesForIndex_cache t j ?q (id_c c') = Some (msg c')"
    by (rule MessagesForIndex_cache_inv)
  moreover from inv c
  have "\<exists>k. fst (PopMessage_cache t j (pops_cache k t j ?q)) = Some (msg c')"
    by (rule pops_cache_reaches)
  ultimately show "(\<forall>t'. bucket_cache t' ?q i = []) \<and>
      (\<forall>k t'. k \<noteq> i \<longrightarrow> bucket_cache t' ?q k = bucket_cache t' q' k) \<and>
      (\<forall>k. k \<noteq> i \<longrightarrow> q_c ?q k = q_c q' k) \<and>
      msgs_c ?q = msgs_c q' \<and>
      c' \<in> set (bucket_cache t ?q j) \<and>
      MessagesForIndex_cache t j ?q (id_c c') = Some (msg c') \<and>
      (\<exists>k. fst (PopMessage_cache t j (pops_cache k t j ?q)) = Some (msg c'))"
    using c by (simp add: bucket_cache_Purge msgs_c_Purge q_c_Purge_other)
qed

theorem PurgeIndexedMessages_frame_witness:
  "reach True [''u1''] two_key_broker \<and> reach_cache [''u1''] two_key_cache \<and>
   ''change-round-all/L/1'' \<noteq> ''ibft/L/1/2/CR'' \<and>
   \<lparr>id_c = ''u1'', msg = 2, indexes = [''ibft/L/1/2/CR'', ''change-round-all/L/1'']\<rparr>
     \<in> set (bucket two_key_broker ''ibft/L/1/2/CR'') \<and>
   \<lparr>id_c = ''u1'', msg = 2, indexes = [''ibft/L/1/2/CR'', ''change-round-all/L/1'']\<rparr>
     \<in> set (bucket_cache 9 two_key_cache ''ibft/L/1/2/CR'') \<and>
   bucket (PurgeIndexedMessages ''change-round-all/L/1'' two_key_broker)
     ''change-round-all/L/1'' = [] \<and>
   MessagesForIndex ''ibft/L/1/2/CR''
     (PurgeIndexedMessages ''change-round-all/L/1'' two_key_broker) ''u1'' = Some 2 \<and>
   bucket_cache 9 (PurgeIndexedMessages_cache 7 ''change-round-all/L/1'' two_key_cache)
     ''change-round-all/L/1'' = [] \<and>
   MessagesForIndex_cache 9 ''ibft/L/1/2/CR''
     (PurgeIndexedMessages_cache 7 ''change-round-all/L/1'' two_key_cache) ''u1'' = Some 2"
proof -
  let ?c = "\<lparr>id_c = ''u1'', msg = 2::nat,
    indexes = [''ibft/L/1/2/CR'', ''change-round-all/L/1'']\<rparr>"
  have "reach True ([] @ [''u1'']) (AddMessage ''u1'' (2::nat) (New [specific_index, all_rounds_index]))"
    by (rule reach_Add [OF reach_New]) simp
  then have r: "reach True [''u1''] two_key_broker"
    by (simp add: two_key_broker_def)
  note rc = reach_cache_two_key
  have n: "''change-round-all/L/1'' \<noteq> ''ibft/L/1/2/CR''"
    by simp
  have i: "''change-round-all/L/1'' \<in> set (indexes ?c)"
    by simp
  have c: "?c \<in> set (bucket two_key_broker ''ibft/L/1/2/CR'')"
    by (simp add: two_key_broker_def bucket_AddMessage bucket_New indexFuncs_New index_msg_def
        specific_index_def all_rounds_index_def)
  have cc: "?c \<in> set (bucket_cache 9 two_key_cache ''ibft/L/1/2/CR'')"
    by (simp add: bucket_two_key_cache)
  note t = PurgeIndexedMessages_frame [of True "[''u1'']" two_key_broker
      "''change-round-all/L/1''" "''ibft/L/1/2/CR''" ?c "[''u1'']" two_key_cache ?c 9 7]
  from r n i c have "reach True [''u1''] two_key_broker \<and>
      ''change-round-all/L/1'' \<noteq> ''ibft/L/1/2/CR'' \<and>
      ''change-round-all/L/1'' \<in> set (indexes ?c) \<and>
      ?c \<in> set (bucket two_key_broker ''ibft/L/1/2/CR'')"
    by (intro conjI)
  with t [THEN conjunct1] have m: "bucket (PurgeIndexedMessages ''change-round-all/L/1'' two_key_broker)
        ''change-round-all/L/1'' = [] \<and>
      (\<forall>k. k \<noteq> ''change-round-all/L/1'' \<longrightarrow>
        bucket (PurgeIndexedMessages ''change-round-all/L/1'' two_key_broker) k =
        bucket two_key_broker k) \<and>
      allMessages (PurgeIndexedMessages ''change-round-all/L/1'' two_key_broker) =
        allMessages two_key_broker \<and>
      ?c \<in> set (bucket (PurgeIndexedMessages ''change-round-all/L/1'' two_key_broker)
        ''ibft/L/1/2/CR'') \<and>
      MessagesForIndex ''ibft/L/1/2/CR''
        (PurgeIndexedMessages ''change-round-all/L/1'' two_key_broker) (id_c ?c) = Some (msg ?c) \<and>
      (\<exists>k. fst (PopMessage ''ibft/L/1/2/CR'' (pops k ''ibft/L/1/2/CR''
        (PurgeIndexedMessages ''change-round-all/L/1'' two_key_broker))) = Some (msg ?c))"
    by (rule mp)
  from rc n i cc have "reach_cache [''u1''] two_key_cache \<and>
      ''change-round-all/L/1'' \<noteq> ''ibft/L/1/2/CR'' \<and>
      ''change-round-all/L/1'' \<in> set (indexes ?c) \<and>
      ?c \<in> set (bucket_cache 9 two_key_cache ''ibft/L/1/2/CR'')"
    by (intro conjI)
  with t [THEN conjunct2] have k: "(\<forall>t'. bucket_cache t'
        (PurgeIndexedMessages_cache 7 ''change-round-all/L/1'' two_key_cache)
        ''change-round-all/L/1'' = []) \<and>
      (\<forall>k t'. k \<noteq> ''change-round-all/L/1'' \<longrightarrow>
        bucket_cache t' (PurgeIndexedMessages_cache 7 ''change-round-all/L/1'' two_key_cache) k =
        bucket_cache t' two_key_cache k) \<and>
      (\<forall>k. k \<noteq> ''change-round-all/L/1'' \<longrightarrow>
        q_c (PurgeIndexedMessages_cache 7 ''change-round-all/L/1'' two_key_cache) k =
        q_c two_key_cache k) \<and>
      msgs_c (PurgeIndexedMessages_cache 7 ''change-round-all/L/1'' two_key_cache) =
        msgs_c two_key_cache \<and>
      ?c \<in> set (bucket_cache 9 (PurgeIndexedMessages_cache 7 ''change-round-all/L/1'' two_key_cache)
        ''ibft/L/1/2/CR'') \<and>
      MessagesForIndex_cache 9 ''ibft/L/1/2/CR''
        (PurgeIndexedMessages_cache 7 ''change-round-all/L/1'' two_key_cache) (id_c ?c)
        = Some (msg ?c) \<and>
      (\<exists>k. fst (PopMessage_cache 9 ''ibft/L/1/2/CR'' (pops_cache k 9 ''ibft/L/1/2/CR''
        (PurgeIndexedMessages_cache 7 ''change-round-all/L/1'' two_key_cache))) = Some (msg ?c))"
    by (rule mp)
  from m have "bucket (PurgeIndexedMessages ''change-round-all/L/1'' two_key_broker)
      ''change-round-all/L/1'' = []"
    by (rule conjunct1)
  moreover from m have "MessagesForIndex ''ibft/L/1/2/CR''
      (PurgeIndexedMessages ''change-round-all/L/1'' two_key_broker) (id_c ?c) = Some (msg ?c)"
    by (elim conjE)
  then have "MessagesForIndex ''ibft/L/1/2/CR''
      (PurgeIndexedMessages ''change-round-all/L/1'' two_key_broker) ''u1'' = Some 2"
    by simp
  moreover from k have "\<forall>t'. bucket_cache t'
        (PurgeIndexedMessages_cache 7 ''change-round-all/L/1'' two_key_cache)
        ''change-round-all/L/1'' = []"
    by (rule conjunct1)
  then have "bucket_cache 9 (PurgeIndexedMessages_cache 7 ''change-round-all/L/1'' two_key_cache)
        ''change-round-all/L/1'' = []"
    by (rule spec)
  moreover from k have "MessagesForIndex_cache 9 ''ibft/L/1/2/CR''
        (PurgeIndexedMessages_cache 7 ''change-round-all/L/1'' two_key_cache) (id_c ?c)
        = Some (msg ?c)"
    by (elim conjE)
  then have "MessagesForIndex_cache 9 ''ibft/L/1/2/CR''
        (PurgeIndexedMessages_cache 7 ''change-round-all/L/1'' two_key_cache) ''u1'' = Some 2"
    by simp
  ultimately show ?thesis
    using r rc n c cc by (intro conjI)
qed

subsection \<open>Popping from a bucket\<close>

text \<open>
  Claim C2, as the code has it, for both drafts of the broker. In a broker that a run
  has reached (with or without purges), \<open>PopMessage idx\<close> returns nothing and changes
  nothing when the bucket of \<open>idx\<close> is empty. Otherwise it returns the message of a
  container \<open>c\<close> of that bucket, which has \<open>idx\<close> among its index keys and is the oldest
  of the bucket: no container there got its uuid earlier. In the map-based draft, if the
  run never purged, \<open>c\<close> is the oldest of all containers in the id lookup that have
  \<open>idx\<close> among their keys. After the call no bucket holds a container with the id of
  \<open>c\<close>, in particular none of the buckets named in its index keys, the other containers
  keep their order, and the id is gone from the id lookup. In the cache-based draft the
  bucket is what the store shows at the time \<open>t\<close> of the call, which is nothing for a
  bucket that is absent or has expired, and no bucket shows the id of \<open>c\<close> at any later
  time.
\<close>

theorem PopMessage_oldest:
  "(reach p h q \<longrightarrow>
    (bucket q idx = [] \<longrightarrow> PopMessage idx q = (None, q)) \<and>
    (bucket q idx \<noteq> [] \<longrightarrow>
      (\<exists>c. fst (PopMessage idx q) = Some (msg c) \<and>
        c \<in> set (bucket q idx) \<and> idx \<in> set (indexes c) \<and> allMessages q (id_c c) = Some c \<and>
        (\<forall>c' \<in> set (bucket q idx). age h (id_c c) \<le> age h (id_c c')) \<and>
        (\<not> p \<longrightarrow> (\<forall>u c'. allMessages q u = Some c' \<and> idx \<in> set (indexes c')
            \<longrightarrow> age h (id_c c) \<le> age h u)) \<and>
        (\<forall>k. bucket (snd (PopMessage idx q)) k =
            filter (\<lambda>c'. id_c c' \<noteq> id_c c) (bucket q k)) \<and>
        (\<forall>k \<in> set (indexes c). \<forall>c' \<in> set (bucket (snd (PopMessage idx q)) k).
            id_c c' \<noteq> id_c c) \<and>
        allMessages (snd (PopMessage idx q)) = (allMessages q)(id_c c := None)))) \<and>
   (reach_cache h' q' \<longrightarrow>
    (bucket_cache t q' idx = [] \<longrightarrow> PopMessage_cache t idx q' = (None, q')) \<and>
    (bucket_cache t q' idx \<noteq> [] \<longrightarrow>
      (\<exists>c. fst (PopMessage_cache t idx q') = Some (msg c) \<and>
        c \<in> set (bucket_cache t q' idx) \<and> idx \<in> set (indexes c) \<and>
        (\<forall>c' \<in> set (bucket_cache t q' idx). age h' (id_c c) \<le> age h' (id_c c')) \<and>
        (\<forall>k. bucket_cache t (snd (PopMessage_cache t idx q')) k =
            filter (\<lambda>c'. id_c c' \<noteq> id_c c) (bucket_cache t q' k)) \<and>
        (\<forall>t' k. t \<le> t' \<longrightarrow>
            (\<forall>c' \<in> set (bucket_cache t' (snd (PopMessage_cache t idx q')) k).
               id_c c' \<noteq> id_c c)) \<and>
        msgs_c (snd (PopMessage_cache t idx q')) = (msgs_c q')(id_c c := None))))"
proof (intro conjI impI)
  assume "bucket q idx = []"
  then show "PopMessage idx q = (None, q)" by (simp add: PopMessage_def)
next
  assume "bucket_cache t q' idx = []"
  then show "PopMessage_cache t idx q' = (None, q')" by (rule PopMessage_cache_Nil)
next
  assume "reach_cache h' q'" "bucket_cache t q' idx \<noteq> []"
  then show "\<exists>c. fst (PopMessage_cache t idx q') = Some (msg c) \<and>
        c \<in> set (bucket_cache t q' idx) \<and> idx \<in> set (indexes c) \<and>
        (\<forall>c' \<in> set (bucket_cache t q' idx). age h' (id_c c) \<le> age h' (id_c c')) \<and>
        (\<forall>k. bucket_cache t (snd (PopMessage_cache t idx q')) k =
            filter (\<lambda>c'. id_c c' \<noteq> id_c c) (bucket_cache t q' k)) \<and>
        (\<forall>t' k. t \<le> t' \<longrightarrow>
            (\<forall>c' \<in> set (bucket_cache t' (snd (PopMessage_cache t idx q')) k).
               id_c c' \<noteq> id_c c)) \<and>
        msgs_c (snd (PopMessage_cache t idx q')) = (msgs_c q')(id_c c := None)"
    by (rule PopMessage_cache_oldest)
next
  assume r: "reach p h q" and "bucket q idx \<noteq> []"
  then obtain c cs where b: "bucket q idx = c # cs" by (cases "bucket q idx") auto
  from r have inv: "broker_inv h q" by (rule reach_broker_inv)
  moreover from b have "c \<in> set (bucket q idx)" by simp
  ultimately have c: "allMessages q (id_c c) = Some c" "idx \<in> set (indexes c)"
    by (auto dest: broker_invD)
  from inv have "sorted (map (\<lambda>c. age h (id_c c)) (bucket q idx))"
    by (simp add: broker_inv_def)
  with b have old: "\<forall>c' \<in> set (bucket q idx). age h (id_c c) \<le> age h (id_c c')"
    by auto
  have pop: "PopMessage idx q = (Some (msg c), deleteMessageFromAllIndexes (indexes c) (id_c c) q)"
    using b by (simp add: PopMessage_def)
  have bk: "\<forall>k. bucket (snd (PopMessage idx q)) k = filter (\<lambda>c'. id_c c' \<noteq> id_c c) (bucket q k)"
    using bucket_delete_inv [OF inv c(1)] by (simp add: pop)
  have all: "\<not> p \<longrightarrow> (\<forall>u c'. allMessages q u = Some c' \<and> idx \<in> set (indexes c')
      \<longrightarrow> age h (id_c c) \<le> age h u)"
  proof (intro impI allI)
    fix u c'
    assume np: "\<not> p" and a: "allMessages q u = Some c' \<and> idx \<in> set (indexes c')"
    from np r have "lookup_inv q" by (simp add: reach_lookup_inv)
    with a have "id_c c' = u" "c' \<in> set (bucket q idx)" by (auto simp: lookup_inv_def)
    with old show "age h (id_c c) \<le> age h u" by auto
  qed
  show "\<exists>c. fst (PopMessage idx q) = Some (msg c) \<and>
        c \<in> set (bucket q idx) \<and> idx \<in> set (indexes c) \<and> allMessages q (id_c c) = Some c \<and>
        (\<forall>c' \<in> set (bucket q idx). age h (id_c c) \<le> age h (id_c c')) \<and>
        (\<not> p \<longrightarrow> (\<forall>u c'. allMessages q u = Some c' \<and> idx \<in> set (indexes c')
            \<longrightarrow> age h (id_c c) \<le> age h u)) \<and>
        (\<forall>k. bucket (snd (PopMessage idx q)) k =
            filter (\<lambda>c'. id_c c' \<noteq> id_c c) (bucket q k)) \<and>
        (\<forall>k \<in> set (indexes c). \<forall>c' \<in> set (bucket (snd (PopMessage idx q)) k).
            id_c c' \<noteq> id_c c) \<and>
        allMessages (snd (PopMessage idx q)) = (allMessages q)(id_c c := None)"
  proof (intro exI [of _ c] conjI)
    show "fst (PopMessage idx q) = Some (msg c)" by (simp add: pop)
    show "c \<in> set (bucket q idx)" by (simp add: b)
    show "idx \<in> set (indexes c)" by (rule c(2))
    show "allMessages q (id_c c) = Some c" by (rule c(1))
    show "\<forall>c' \<in> set (bucket q idx). age h (id_c c) \<le> age h (id_c c')" by (rule old)
    show "\<not> p \<longrightarrow> (\<forall>u c'. allMessages q u = Some c' \<and> idx \<in> set (indexes c')
            \<longrightarrow> age h (id_c c) \<le> age h u)" by (rule all)
    show "\<forall>k. bucket (snd (PopMessage idx q)) k =
            filter (\<lambda>c'. id_c c' \<noteq> id_c c) (bucket q k)" by (rule bk)
    show "\<forall>k \<in> set (indexes c). \<forall>c' \<in> set (bucket (snd (PopMessage idx q)) k).
            id_c c' \<noteq> id_c c" by (simp add: bk)
    show "allMessages (snd (PopMessage idx q)) = (allMessages q)(id_c c := None)"
      by (simp add: pop allMessages_delete)
  qed
qed

theorem PopMessage_oldest_witness:
  "reach False [''u1'', ''u2''] two_message_broker \<and>
   reach_cache [''u1'', ''u2''] two_message_cache \<and>
   bucket two_message_broker ''change-round-all/L/1'' \<noteq> [] \<and>
   bucket_cache 9 two_message_cache ''change-round-all/L/1'' \<noteq> [] \<and>
   fst (PopMessage ''change-round-all/L/1'' two_message_broker) = Some 2 \<and>
   bucket (snd (PopMessage ''change-round-all/L/1'' two_message_broker)) ''change-round-all/L/1'' =
     [\<lparr>id_c = ''u2'', msg = 3, indexes = [''change-round-all/L/1'']\<rparr>] \<and>
   allMessages (snd (PopMessage ''change-round-all/L/1'' two_message_broker)) ''u1'' = None \<and>
   fst (PopMessage_cache 9 ''change-round-all/L/1'' two_message_cache) = Some 2 \<and>
   bucket_cache 9 (snd (PopMessage_cache 9 ''change-round-all/L/1'' two_message_cache))
     ''change-round-all/L/1'' = [\<lparr>id_c = ''u2'', msg = 3, indexes = [''change-round-all/L/1'']\<rparr>] \<and>
   msgs_c (snd (PopMessage_cache 9 ''change-round-all/L/1'' two_message_cache)) ''u1'' = None"
proof -
  let ?c1 = "\<lparr>id_c = ''u1'', msg = 2::nat, indexes = [''ibft/L/1/2/CR'', ''change-round-all/L/1'']\<rparr>"
  let ?c2 = "\<lparr>id_c = ''u2'', msg = 3::nat, indexes = [''change-round-all/L/1'']\<rparr>"
  note r = reach_two_message [of False]
  note rc = reach_cache_two_message
  note b = bucket_two_message
  note bc = bucket_two_message_cache
  have ne: "bucket two_message_broker ''change-round-all/L/1'' \<noteq> []"
    by (simp add: b)
  have nec: "bucket_cache 9 two_message_cache ''change-round-all/L/1'' \<noteq> []"
    by (simp add: bc)
  note t = PopMessage_oldest [of False "[''u1'', ''u2'']" two_message_broker
      "''change-round-all/L/1''" "[''u1'', ''u2'']" two_message_cache 9]
  from t [THEN conjunct1, THEN mp, OF r, THEN conjunct2, THEN mp, OF ne]
  obtain c where c: "fst (PopMessage ''change-round-all/L/1'' two_message_broker) = Some (msg c)"
    "c \<in> set (bucket two_message_broker ''change-round-all/L/1'')"
    "\<forall>c' \<in> set (bucket two_message_broker ''change-round-all/L/1'').
        age [''u1'', ''u2''] (id_c c) \<le> age [''u1'', ''u2''] (id_c c')"
    "\<forall>k. bucket (snd (PopMessage ''change-round-all/L/1'' two_message_broker)) k =
        filter (\<lambda>c'. id_c c' \<noteq> id_c c) (bucket two_message_broker k)"
    "allMessages (snd (PopMessage ''change-round-all/L/1'' two_message_broker)) =
        (allMessages two_message_broker)(id_c c := None)"
    by blast
  from t [THEN conjunct2, THEN mp, OF rc, THEN conjunct2, THEN mp, OF nec]
  obtain d where d: "fst (PopMessage_cache 9 ''change-round-all/L/1'' two_message_cache) = Some (msg d)"
    "d \<in> set (bucket_cache 9 two_message_cache ''change-round-all/L/1'')"
    "\<forall>c' \<in> set (bucket_cache 9 two_message_cache ''change-round-all/L/1'').
        age [''u1'', ''u2''] (id_c d) \<le> age [''u1'', ''u2''] (id_c c')"
    "\<forall>k. bucket_cache 9 (snd (PopMessage_cache 9 ''change-round-all/L/1'' two_message_cache)) k =
        filter (\<lambda>c'. id_c c' \<noteq> id_c d) (bucket_cache 9 two_message_cache k)"
    "msgs_c (snd (PopMessage_cache 9 ''change-round-all/L/1'' two_message_cache)) =
        (msgs_c two_message_cache)(id_c d := None)"
    by blast
  from c(3) have "age [''u1'', ''u2''] (id_c c) \<le> age [''u1'', ''u2''] ''u1''"
    by (simp add: b)
  then have "age [''u1'', ''u2''] (id_c c) = 0"
    by (simp add: age_def)
  moreover from c(2) have "c = ?c1 \<or> c = ?c2"
    by (simp add: b)
  ultimately have e: "c = ?c1"
    by (auto simp: age_def)
  from d(3) have "age [''u1'', ''u2''] (id_c d) \<le> age [''u1'', ''u2''] ''u1''"
    by (simp add: bc)
  then have "age [''u1'', ''u2''] (id_c d) = 0"
    by (simp add: age_def)
  moreover from d(2) have "d = ?c1 \<or> d = ?c2"
    by (simp add: bc)
  ultimately have f: "d = ?c1"
    by (auto simp: age_def)
  from c(4) have "bucket (snd (PopMessage ''change-round-all/L/1'' two_message_broker))
      ''change-round-all/L/1'' = [?c2]"
    by (simp add: e b)
  moreover from c(1) have "fst (PopMessage ''change-round-all/L/1'' two_message_broker) = Some 2"
    by (simp add: e)
  moreover from c(5)
  have "allMessages (snd (PopMessage ''change-round-all/L/1'' two_message_broker)) ''u1'' = None"
    by (simp add: e)
  moreover from d(1)
  have "fst (PopMessage_cache 9 ''change-round-all/L/1'' two_message_cache) = Some 2"
    by (simp add: f)
  moreover from d(4)
  have "bucket_cache 9 (snd (PopMessage_cache 9 ''change-round-all/L/1'' two_message_cache))
      ''change-round-all/L/1'' = [?c2]"
    by (simp add: f bc)
  moreover from d(5)
  have "msgs_c (snd (PopMessage_cache 9 ''change-round-all/L/1'' two_message_cache)) ''u1'' = None"
    by (simp add: f)
  ultimately show ?thesis
    using r rc ne nec by (intro conjI)
qed


text \<open>
  Claim C2 as stated fails after a purge. The round-change message \<open>u1\<close> is added, the
  bucket of all round changes is purged, and a second message \<open>u2\<close> is added: \<open>u1\<close> is
  older, is still in the id lookup and has the key among its index keys, and
  \<open>PopMessage\<close> of that key returns the message of \<open>u2\<close>.
\<close>

theorem PopMessage_after_purge_counterexample:
  "reach True [''u1'', ''u2''] purged_broker \<and>
   allMessages purged_broker ''u1'' =
     Some \<lparr>id_c = ''u1'', msg = 2, indexes = [''ibft/L/1/2/CR'', ''change-round-all/L/1'']\<rparr> \<and>
   age [''u1'', ''u2''] ''u1'' < age [''u1'', ''u2''] ''u2'' \<and>
   bucket purged_broker ''change-round-all/L/1'' =
     [\<lparr>id_c = ''u2'', msg = 3, indexes = [''change-round-all/L/1'']\<rparr>] \<and>
   fst (PopMessage ''change-round-all/L/1'' purged_broker) = Some 3"
proof -
  have b: "bucket purged_broker ''change-round-all/L/1'' =
      [\<lparr>id_c = ''u2'', msg = 3, indexes = [''change-round-all/L/1'']\<rparr>]"
    by (simp add: purged_broker_def two_key_broker_def bucket_AddMessage bucket_Purge
        indexFuncs_Purge indexFuncs_AddMessage indexFuncs_New index_msg_def
        specific_index_def all_rounds_index_def)
  have a: "allMessages purged_broker ''u1'' =
      Some \<lparr>id_c = ''u1'', msg = 2, indexes = [''ibft/L/1/2/CR'', ''change-round-all/L/1'']\<rparr>"
    by (simp add: purged_broker_def two_key_broker_def allMessages_AddMessage allMessages_Purge
        indexFuncs_Purge indexFuncs_AddMessage indexFuncs_New index_msg_def
        specific_index_def all_rounds_index_def)
  have g: "age [''u1'', ''u2''] ''u1'' < age [''u1'', ''u2''] ''u2''"
    by (simp add: age_def)
  have p: "fst (PopMessage ''change-round-all/L/1'' purged_broker) = Some 3"
    by (simp add: PopMessage_def b)
  from reach_purged a g b p show ?thesis
    by (intro conjI)
qed

subsection \<open>The id lookup and the buckets\<close>

text \<open>
  Claim C3, as the code has it. In a broker reached by a run of \<open>AddMessage\<close>,
  \<open>PopMessage\<close> and \<open>DeleteMessagesWithIds\<close> (no purge), an id is in at least one
  bucket if and only if the id lookup holds it with a container that has at least one
  index key. A container without index keys is in the id lookup and in no bucket.
\<close>


theorem lookup_iff_bucket_keyed:
  assumes "reach False h q"
  shows "(\<exists>idx c. c \<in> set (bucket q idx) \<and> id_c c = i) \<longleftrightarrow>
         (\<exists>c. allMessages q i = Some c \<and> indexes c \<noteq> [])"
proof
  assume "\<exists>idx c. c \<in> set (bucket q idx) \<and> id_c c = i"
  then obtain idx c where c: "c \<in> set (bucket q idx)" "id_c c = i" by blast
  from assms have "broker_inv h q" by (rule reach_broker_inv)
  with c have "allMessages q i = Some c" "idx \<in> set (indexes c)"
    by (auto simp: broker_inv_def)
  then show "\<exists>c. allMessages q i = Some c \<and> indexes c \<noteq> []" by auto
next
  assume "\<exists>c. allMessages q i = Some c \<and> indexes c \<noteq> []"
  then obtain c where c: "allMessages q i = Some c" "indexes c \<noteq> []" by blast
  then obtain idx where i: "idx \<in> set (indexes c)" by (cases "indexes c") auto
  from assms have "lookup_inv q" by (rule reach_lookup_inv)
  with c i have "id_c c = i" "c \<in> set (bucket q idx)" by (auto simp: lookup_inv_def)
  then show "\<exists>idx c. c \<in> set (bucket q idx) \<and> id_c c = i" by blast
qed


theorem lookup_iff_bucket_keyed_witness:
  "reach False [''u1''] two_key_broker \<and> allMessages two_key_broker ''u1'' \<noteq> None \<and>
   (\<exists>idx c. c \<in> set (bucket two_key_broker idx) \<and> id_c c = ''u1'')"
proof -
  have "reach False ([] @ [''u1'']) (AddMessage ''u1'' (2::nat) (New [specific_index, all_rounds_index]))"
    by (rule reach_Add [OF reach_New]) simp
  then have r: "reach False [''u1''] two_key_broker"
    by (simp add: two_key_broker_def)
  have a: "allMessages two_key_broker ''u1'' =
      Some \<lparr>id_c = ''u1'', msg = 2, indexes = [''ibft/L/1/2/CR'', ''change-round-all/L/1'']\<rparr>"
    by (simp add: two_key_broker_def allMessages_AddMessage indexFuncs_New index_msg_def
        specific_index_def all_rounds_index_def)
  have "\<exists>c. allMessages two_key_broker ''u1'' = Some c \<and> indexes c \<noteq> []"
    by (simp add: a)
  with lookup_iff_bucket_keyed [OF r, of "''u1''"]
  have "\<exists>idx c. c \<in> set (bucket two_key_broker idx) \<and> id_c c = ''u1''"
    by (rule iffD2)
  moreover have "allMessages two_key_broker ''u1'' \<noteq> None"
    by (simp add: a)
  ultimately show ?thesis
    using r by (intro conjI)
qed

text \<open>
  Claim C3 as stated fails on a message for which the index functions give no key: its
  uuid is in the id lookup, and the broker has no bucket at all.
\<close>

theorem lookup_without_bucket_counterexample:
  "reach False [''u1''] unkeyed_broker \<and> allMessages unkeyed_broker ''u1'' \<noteq> None \<and>
   dom (queue unkeyed_broker) = {}"
proof -
  have "reach False ([] @ [''u1'']) (AddMessage ''u1'' (3::nat) (New [specific_index]))"
    by (rule reach_Add [OF reach_New]) simp
  then have "reach False [''u1''] unkeyed_broker"
    by (simp add: unkeyed_broker_def)
  then show ?thesis
    by (simp add: unkeyed_broker_def AddMessage_def New_def index_msg_def specific_index_def)
qed


section \<open>Properties of the replay of contract events\<close>


lemma DefaultSyncOffset_value: "DefaultSyncOffset = Some 5140591"
  by (simp add: DefaultSyncOffset_def HexStringToSyncOffset_def defaultSyncOffset_def
      SetString16_def scanSign_def hex_digit_def)

text \<open>A string that is not a number throughout gives the number it starts with.\<close>

lemma HexStringToSyncOffset_keeps_digits:
  "HexStringToSyncOffset ''12zz'' = Some 18 \<and> snd (SetString16 ''12zz'') = False \<and>
   HexStringToSyncOffset ''-1f'' = Some (- 31) \<and> HexStringToSyncOffset ''zz'' = Some 0"
  by (simp add: HexStringToSyncOffset_def SetString16_def scanSign_def hex_digit_def)

text \<open>
  Claim C10. \<open>determineSyncOffset\<close> returns the offset from the storage whenever the
  storage reports one as found and it is not nil, whatever offset was passed in; it
  returns the offset passed in only when the storage has none; and it returns the default,
  the block 0x4e706f, only when there is neither.
\<close>

theorem determineSyncOffset_priority:
  "determineSyncOffset (Some s, True, e) a = Some s \<and>
   (\<not> found \<or> fromStorage = None \<longrightarrow>
      determineSyncOffset (fromStorage, found, e) (Some provided) = Some provided) \<and>
   (\<not> found \<or> fromStorage = None \<longrightarrow>
      determineSyncOffset (fromStorage, found, e) None = Some 0x4e706f)"
proof (intro conjI impI)
  show "determineSyncOffset (Some s, True, e) a = Some s"
    by (simp add: determineSyncOffset_def)
next
  assume "\<not> found \<or> fromStorage = None"
  then have n: "\<not> (found \<and> fromStorage \<noteq> None)"
    by simp
  show "determineSyncOffset (fromStorage, found, e) (Some provided) = Some provided"
    using n by (simp add: determineSyncOffset_def)
  show "determineSyncOffset (fromStorage, found, e) None = Some 0x4e706f"
    using n by (simp add: determineSyncOffset_def DefaultSyncOffset_value)
qed

theorem determineSyncOffset_priority_witness:
  "determineSyncOffset (Some 9, True, None) (Some 7) = Some 9 \<and>
   determineSyncOffset (None, False, None) (Some 7) = Some 7 \<and>
   determineSyncOffset (Some 9, False, None) None = Some 0x4e706f"
  using determineSyncOffset_priority [of 9 None "Some 7" False None 7]
    determineSyncOffset_priority [of 9 None None False "Some 9" 7]
  by simp

lemma Uint64_default: "Uint64 5140591 = 5140591"
  by (simp add: Uint64_def)

text \<open>
  Claim C4 at a failing input. The storage is empty and no offset is passed in, so the
  replay starts at the default block 5140591. The handler fails on no event, the \<open>SyncEndedEvent\<close>
  reports success with one log, of block 5140600, but the head block 5140700 is ahead of
  the offset: the call returns through its recursive call, before \<open>upgradeSyncOffset\<close>,
  and \<open>SaveSyncOffset\<close> is never called for this replay. The recursive call replays
  from the same offset 5140591.
\<close>

theorem SyncEth1Events_skips_save:
  "SyncEth1Events [replay_round, idle_round] None None (Some accepting) =
     Some \<lparr>returned = None, stored = None, saves = [],
       syncs = [Some 5140591, Some 5140591]\<rparr>"
  by (simp add: replay_round_def idle_round_def GetSyncOffset_def determineSyncOffset_def
      DefaultSyncOffset_value queue_errors_def Uint64_default upgradeSyncOffset_def Let_def
      fetch_again_def accepting_def List.map_filter_simps
      no_SyncEndedEvent_def)

text \<open>
  Claim C5 fails where the head is unavailable and \<open>SaveSyncOffset\<close> fails: the call
  returns the error of \<open>upgradeSyncOffset\<close>.
\<close>

theorem SyncEth1Events_head_unavailable_counterexample:
  "SyncEth1Events [headless_round] None None (Some accepting) =
     Some \<lparr>returned = Some UpgradeFailed, stored = None, saves = [5140600],
       syncs = [Some 5140591]\<rparr>"
  by (simp add: headless_round_def replay_round_def GetSyncOffset_def determineSyncOffset_def
      DefaultSyncOffset_value queue_errors_def Uint64_default upgradeSyncOffset_def Let_def
      fetch_again_def accepting_def List.map_filter_simps
      SetUint64_def)

lemma SyncEth1Events_caught_up:
  "SyncEth1Events [caught_up_round] None None (Some accepting) =
     Some \<lparr>returned = None, stored = Some 5140600, saves = [5140600],
       syncs = [Some 5140591]\<rparr>"
  by (simp add: caught_up_round_def replay_round_def GetSyncOffset_def determineSyncOffset_def
      DefaultSyncOffset_value queue_errors_def Uint64_default upgradeSyncOffset_def Let_def
      fetch_again_def accepting_def List.map_filter_simps
      SetUint64_def)

lemma determineSyncOffset_not_nil: "determineSyncOffset got a \<noteq> None"
  by (cases got) (auto simp: determineSyncOffset_def DefaultSyncOffset_value)

lemma determine_again:
  assumes "determineSyncOffset (st, st \<noteq> None, None) a = Some off"
  shows "determineSyncOffset (st, st \<noteq> None, None) (Some off) = Some off"
  using assms by (auto simp: determineSyncOffset_def)

lemma head_ahead_never_returns:
  assumes "\<forall>r \<in> set rs. head_ahead handler off r"
    and "determineSyncOffset (st, st \<noteq> None, None) a = Some off"
  shows "SyncEth1Events rs st a handler = None"
  using assms
proof (induction rs arbitrary: a)
  case Nil
  show ?case by simp
next
  case (Cons r rs)
  from Cons.prems(1) have r: "head_ahead handler off r" by simp
  from Cons.prems(1) have "\<forall>r \<in> set rs. head_ahead handler off r" by simp
  moreover from Cons.prems(2)
  have "determineSyncOffset (st, st \<noteq> None, None) (Some off) = Some off"
    by (rule determine_again)
  ultimately have ih: "SyncEth1Events rs st (Some off) handler = None"
    by (rule Cons.IH)
  from r have b: "fetch_again off (current_block r)"
    by (simp add: head_ahead_def)
  from r have q: "queue_errors handler (fst (read_events (delivered r))) = []"
    by (simp add: head_ahead_def)
  from r have g: "GetSyncOffset st r = (st, st \<noteq> None, None)"
    by (simp add: head_ahead_def GetSyncOffset_def)
  from r have f: "\<not> register_fails r" "\<not> sync_fails r"
    by (simp_all add: head_ahead_def)
  show ?case
    using f q b ih Cons.prems(2)
    by (simp add: g Let_def case_prod_beta)
qed


lemma saves_upgradeSyncOffset:
  "snd (snd (upgradeSyncOffset st save_err off ev)) \<noteq> [] \<longleftrightarrow>
     Logs ev \<noteq> [] \<and> Success ev \<and> Uint64 off < BlockNumber (last (Logs ev))"
  by (cases "Logs ev" rule: rev_cases) (auto simp: upgradeSyncOffset_def Let_def)

lemma returned_upgradeSyncOffset:
  "fst (upgradeSyncOffset st save_err off ev) \<noteq> None \<longleftrightarrow>
     save_err \<and> snd (snd (upgradeSyncOffset st save_err off ev)) \<noteq> []"
  by (auto simp: upgradeSyncOffset_def Let_def)

lemma SyncEth1Events_handlers_failed:
  assumes "\<not> register_fails r" and "\<not> sync_fails r"
    and "queue_errors handler (fst (read_events (delivered r))) \<noteq> []"
  shows "SyncEth1Events (r # rs) st a handler =
    Some \<lparr>returned = Some HandlersFailed, stored = st, saves = [],
      syncs = [determineSyncOffset (GetSyncOffset st r) a]\<rparr>"
  using assms by (simp add: Let_def case_prod_beta)

text \<open>
  Claim C5, as the code has it. When no handler fails and the current head is
  unavailable, the call goes on to \<open>upgradeSyncOffset\<close>: it returns what that returns, and
  this is an error exactly when \<open>SaveSyncOffset\<close> is called and fails.
\<close>

theorem SyncEth1Events_head_unavailable:
  assumes "\<not> register_fails r" and "\<not> sync_fails r"
    and "queue_errors handler (fst (read_events (delivered r))) = []"
    and "determineSyncOffset (GetSyncOffset st r) a = Some off"
    and "current_block r = None"
  shows "\<exists>out. SyncEth1Events (r # rs) st a handler = Some out \<and>
    (returned out, stored out, saves out) =
      upgradeSyncOffset st (save_fails r) off (snd (read_events (delivered r))) \<and>
    (returned out \<noteq> None \<longleftrightarrow> save_fails r \<and> saves out \<noteq> [])"
proof -
  obtain e st' sv
    where u: "upgradeSyncOffset st (save_fails r) off (snd (read_events (delivered r))) = (e, st', sv)"
    by (cases "upgradeSyncOffset st (save_fails r) off (snd (read_events (delivered r)))")
  let ?out = "\<lparr>returned = e, stored = st', saves = sv, syncs = [Some off]\<rparr>"
  from assms u have "SyncEth1Events (r # rs) st a handler = Some ?out"
    by (simp add: Let_def case_prod_beta fetch_again_def)
  moreover from returned_upgradeSyncOffset [of st "save_fails r" off "snd (read_events (delivered r))"] u
  have "returned ?out \<noteq> None \<longleftrightarrow> save_fails r \<and> saves ?out \<noteq> []"
    by simp
  ultimately show ?thesis
    using u by auto
qed

theorem SyncEth1Events_head_unavailable_witness:
  "\<not> register_fails idle_round \<and> \<not> sync_fails idle_round \<and>
   queue_errors (Some accepting) (fst (read_events (delivered idle_round))) = [] \<and>
   determineSyncOffset (GetSyncOffset (Some 5140600) idle_round) None = Some 5140600 \<and>
   current_block idle_round = None \<and>
   (\<exists>out. SyncEth1Events [idle_round] (Some 5140600) None (Some accepting) = Some out \<and>
      returned out = None)"
proof -
  have a: "\<not> register_fails idle_round" "\<not> sync_fails idle_round"
    "queue_errors (Some accepting) (fst (read_events (delivered idle_round))) = []"
    "determineSyncOffset (GetSyncOffset (Some 5140600) idle_round) None = Some 5140600"
    "current_block idle_round = None"
    by (simp_all add: idle_round_def queue_errors_def GetSyncOffset_def determineSyncOffset_def
        accepting_def List.map_filter_simps)
  have s: "\<not> save_fails idle_round"
    by (simp add: idle_round_def)
  from SyncEth1Events_head_unavailable [OF a, of "[]"] s
  have "\<exists>out. SyncEth1Events [idle_round] (Some 5140600) None (Some accepting) = Some out \<and>
      returned out = None"
    by auto
  with a show ?thesis
    by (intro conjI)
qed

text \<open>
  In an invocation that does not fetch again, \<open>SaveSyncOffset\<close> is called exactly under
  the four conditions: no handler failed, there are logs, the replay succeeded, and the
  block of the last log is above the offset.
\<close>

lemma SyncEth1Events_saves_iff:
  assumes "\<not> register_fails r" and "\<not> sync_fails r"
    and "determineSyncOffset (GetSyncOffset st r) a = Some off"
    and "\<not> fetch_again off (current_block r)"
  shows "\<exists>out. SyncEth1Events (r # rs) st a handler = Some out \<and>
    (saves out \<noteq> [] \<longleftrightarrow>
       queue_errors handler (fst (read_events (delivered r))) = [] \<and>
       Logs (snd (read_events (delivered r))) \<noteq> [] \<and>
       Success (snd (read_events (delivered r))) \<and>
       Uint64 off < BlockNumber (last (Logs (snd (read_events (delivered r))))))"
proof (cases "queue_errors handler (fst (read_events (delivered r))) = []")
  case False
  with assms show ?thesis
    by (simp add: Let_def case_prod_beta)
next
  case True
  obtain e st' sv
    where u: "upgradeSyncOffset st (save_fails r) off (snd (read_events (delivered r))) = (e, st', sv)"
    by (cases "upgradeSyncOffset st (save_fails r) off (snd (read_events (delivered r)))")
  from saves_upgradeSyncOffset [of st "save_fails r" off "snd (read_events (delivered r))"] u
  have "sv \<noteq> [] \<longleftrightarrow> Logs (snd (read_events (delivered r))) \<noteq> [] \<and>
       Success (snd (read_events (delivered r))) \<and>
       Uint64 off < BlockNumber (last (Logs (snd (read_events (delivered r)))))"
    by simp
  with assms True u show ?thesis
    by (simp add: Let_def case_prod_beta)
qed

section \<open>Properties of the wait for peers\<close>






lemma dw3: "double_wrapped 3000000000 = 6000000000"
  by (simp add: double_wrapped_def signed_take_bit_int_eq_self)

lemma dw6: "double_wrapped 6000000000 = 12000000000"
  by (simp add: double_wrapped_def signed_take_bit_int_eq_self)

lemma dw2s: "double_wrapped 2000000000 = 4000000000"
  by (simp add: double_wrapped_def signed_take_bit_int_eq_self)

lemma dw4s: "double_wrapped 4000000000 = 8000000000"
  by (simp add: double_wrapped_def signed_take_bit_int_eq_self)

lemma dw8s: "double_wrapped 8000000000 = 16000000000"
  by (simp add: double_wrapped_def signed_take_bit_int_eq_self)


text \<open>
  With these durations the doubled interval is never the limit, so the function never
  fails fast, however long there are no peers.
\<close>

lemma wait_loop_never_fails:
  assumes "interval \<in> {3000000000, 6000000000, 2000000000, 4000000000, 8000000000}"
  shows "fst (wait_loop polls mn interval 3000000000 10000000000 True) \<noteq> Some CouldNotFindPeers"
  using assms
proof (induction polls arbitrary: interval)
  case Nil
  then show ?case by simp
next
  case (Cons p ps)
  let ?i = "wrap_interval 3000000000 10000000000 (double_wrapped interval)"
  from Cons.prems have d: "double_wrapped interval \<noteq> 10000000000"
    by (auto simp: dw3 dw6 dw2s dw4s dw8s)
  from Cons.prems
  have "?i \<in> {3000000000, 6000000000, 2000000000, 4000000000, 8000000000}"
    by (auto simp: dw3 dw6 dw2s dw4s dw8s wrap_interval_def signed_modulo_int_def)
  then have "fst (wait_loop ps mn ?i 3000000000 10000000000 True) \<noteq> Some CouldNotFindPeers"
    by (rule Cons.IH)
  with d show ?case
    by (simp add: case_prod_beta)
qed

lemma WaitForMinPeers_never_fails:
  "fst (WaitForMinPeers polls mn 3000000000 10000000000 True) \<noteq> Some CouldNotFindPeers"
  unfolding WaitForMinPeers_def by (rule wait_loop_never_fails) simp





section \<open>Properties of shares and their storage\<close>

subsection \<open>Serialization\<close>


lemma copy_node_Some: "copy_node (Some n) = Some n"
  by (simp add: copy_node_def)

lemma copy_committee:
  assumes "\<forall>k. c k \<noteq> Some None"
  shows "(\<lambda>key. map_option copy_node (c key)) = c"
proof
  fix key
  show "map_option copy_node (c key) = c key"
  proof (cases "c key")
    case None
    then show ?thesis by simp
  next
    case (Some n)
    with assms obtain n' where "n = Some n'" by (cases n) auto
    with Some show ?thesis by (simp add: copy_node_Some)
  qed
qed

lemma Serialize_then_Deserialize:
  assumes rt: "round_trips cd" and wf: "no_nil s" and pk: "PublicKey s = Some p"
  shows "\<exists>v. Serialize cd s = Inr v \<and>
    Deserialize cd \<lparr>Key = pk_Serialize cd p, Value = v\<rparr> = Inr s"
proof -
  from wf obtain k where k: "ShareKey s = Some k"
    by (auto simp: no_nil_def)
  from wf have c: "(\<lambda>key. map_option copy_node (Committee s key)) = Committee s"
    by (intro copy_committee) (simp add: no_nil_def)
  let ?ser = "\<lparr>NodeID_s = NodeID s, ShareKey_s = sk_Serialize cd k,
    Committee_s = Committee s, Metadata_s = Metadata s\<rparr>"
  from wf have "\<forall>key. Committee_s ?ser key \<noteq> Some None"
    by (simp add: no_nil_def)
  with rt obtain b where b: "gob_Encode cd ?ser = Some b" "gob_Decode cd b = Some ?ser"
    unfolding round_trips_def by blast
  from rt have sk: "if sk_Serialize cd k = [] then k = sk_zero cd
      else sk_Deserialize cd (sk_Serialize cd k) = Some k"
    unfolding round_trips_def by blast
  have s: "\<lparr>NodeID = NodeID s, PublicKey = Some p, ShareKey = Some k,
      Committee = Committee s, Metadata = Metadata s\<rparr> = s"
    using k pk by (cases s) simp
  from rt have p: "pk_Deserialize cd (pk_Serialize cd p) = Some p"
    by (simp add: round_trips_def)
  have "Serialize cd s = Inr b"
    using k b(1) by (simp add: Serialize_def c)
  moreover have "Deserialize cd \<lparr>Key = pk_Serialize cd p, Value = b\<rparr> = Inr s"
  proof (cases "sk_Serialize cd k = []")
    case True
    with sk have "sk_zero cd = k" by simp
    with True p s show ?thesis by (simp add: Deserialize_def b(2))
  next
    case False
    with sk have "sk_Deserialize cd (sk_Serialize cd k) = Some k" by simp
    with False p s show ?thesis by (simp add: Deserialize_def b(2))
  qed
  ultimately show ?thesis by blast
qed

lemma round_trips_plain: "round_trips plain_codec"
  by (simp add: round_trips_def plain_codec_def)

lemma canonical_plain: "canonical_keys plain_codec"
  by (simp add: canonical_keys_def plain_codec_def)


lemma no_nil_example: "no_nil example_share"
  by (simp add: no_nil_def example_share_def four_nodes_def)

lemma Serialize_Deserialize_example:
  "\<exists>v. Serialize plain_codec example_share = Inr v \<and>
      Deserialize plain_codec \<lparr>Key = pk_Serialize plain_codec [171, 205], Value = v\<rparr> =
        Inr example_share"
proof -
  have p: "PublicKey example_share = Some [171, 205]"
    by (simp add: example_share_def)
  from round_trips_plain no_nil_example p show ?thesis
    by (rule Serialize_then_Deserialize)
qed

lemma Serialize_nil_ShareKey:
  assumes "ShareKey s = None"
  shows "Serialize cd s = Inl NilPointer"
  using assms by (simp add: Serialize_def)

lemma Deserialize_ShareKey:
  assumes "Deserialize cd obj = Inr s"
  shows "ShareKey s \<noteq> None"
  using assms
  by (auto simp: Deserialize_def split: option.splits if_splits)


lemma getUnsafe_Some:
  assumes "getUnsafe cd fl d key = (Some s, True, None)"
  shows "\<exists>v. d key = Some v \<and> \<not> get_err fl \<and>
    Deserialize cd \<lparr>Key = key, Value = v\<rparr> = Inr s"
  using assms
  by (auto simp: getUnsafe_def db_Get_def split: option.splits if_splits sum.splits)

lemma Deserialize_keys:
  assumes "Deserialize cd obj = Inr s"
  shows "\<exists>p k. PublicKey s = Some p \<and> ShareKey s = Some k \<and> pk_Deserialize cd (Key obj) = Some p"
  using assms
  by (auto simp: Deserialize_def split: option.splits if_splits)

text \<open>
  Claim C9, as the code has it. Let the libraries round-trip, with one serialization for
  a public key, let \<open>pk\<close> be the hexadecimal form of \<open>key\<close> and let
  \<open>GetValidatorShare key\<close> return the share \<open>s\<close> (without nil nodes). If
  \<open>UpdateValidatorMetadata pk m\<close> succeeds, \<open>GetValidatorShare key\<close> returns \<open>s\<close> with
  the metadata \<open>m\<close> and all other fields as they were.
\<close>

theorem UpdateValidatorMetadata_then_Get:
  assumes rt: "round_trips cd" and cn: "canonical_keys cd"
    and hx: "hex_DecodeString pk = Some key"
    and got: "GetValidatorShare cd fl d key = (Some s, True, None)"
    and nn: "\<forall>k. Committee s k \<noteq> Some None"
    and upd: "UpdateValidatorMetadata cd fl d pk m = (None, d')"
  shows "GetValidatorShare cd fl d' key = (Some (s\<lparr>Metadata := m\<rparr>), True, None)"
proof -
  from got have g: "getUnsafe cd fl d key = (Some s, True, None)"
    by (simp add: GetValidatorShare_def)
  from getUnsafe_Some [OF g] obtain v where v: "d key = Some v" "\<not> get_err fl"
    "Deserialize cd \<lparr>Key = key, Value = v\<rparr> = Inr s"
    by blast
  from Deserialize_keys [OF v(3)] obtain p k where k: "PublicKey s = Some p" "ShareKey s = Some k"
    "pk_Deserialize cd key = Some p"
    by auto
  from cn k(3) have key: "pk_Serialize cd p = key"
    by (simp add: canonical_keys_def)
  let ?s = "s\<lparr>Metadata := m\<rparr>"
  from k nn have wf: "no_nil ?s"
    by (simp add: no_nil_def)
  from k have "PublicKey ?s = Some p" by simp
  from Serialize_then_Deserialize [OF rt wf this] obtain b where b: "Serialize cd ?s = Inr b"
    "Deserialize cd \<lparr>Key = key, Value = b\<rparr> = Inr ?s"
    unfolding key by blast
  from upd have "saveUnsafe cd fl d ?s = (None, d')"
    by (simp add: UpdateValidatorMetadata_def hx g)
  with b(1) k(1) have "db_Set fl d key b = (None, d')"
    by (simp add: saveUnsafe_def key)
  then have d': "d' = d(key \<mapsto> b)"
    by (auto simp: db_Set_def split: if_splits)
  show ?thesis
    using v(2) b(2) by (simp add: GetValidatorShare_def getUnsafe_def db_Get_def d')
qed

lemma hex_abcd: "hex_DecodeString ''abcd'' = Some [171, 205]"
  by (simp add: hex_digit_def)

lemma Get_example:
  "GetValidatorShare plain_codec all_work example_db [171, 205] = (Some example_share, True, None)"
  by (simp add: GetValidatorShare_def getUnsafe_def db_Get_def example_db_def all_work_def
      Deserialize_def plain_codec_def example_share_def)

lemma Update_example:
  "fst (UpdateValidatorMetadata plain_codec all_work example_db ''abcd'' (Some 5)) = None"
proof -
  have g: "getUnsafe plain_codec all_work example_db [171, 205] = (Some example_share, True, None)"
    using Get_example by (simp add: GetValidatorShare_def)
  have "UpdateValidatorMetadata plain_codec all_work example_db ''abcd'' (Some 5) =
      saveUnsafe plain_codec all_work example_db (example_share\<lparr>Metadata := Some 5\<rparr>)"
    by (simp add: UpdateValidatorMetadata_def hex_abcd g del: hex_DecodeString.simps)
  then show ?thesis
    by (simp add: saveUnsafe_def Serialize_def example_share_def plain_codec_def db_Set_def
        all_work_def)
qed

theorem UpdateValidatorMetadata_then_Get_witness:
  "round_trips plain_codec \<and> canonical_keys plain_codec \<and>
   hex_DecodeString ''abcd'' = Some [171, 205] \<and>
   GetValidatorShare plain_codec all_work example_db [171, 205] = (Some example_share, True, None) \<and>
   fst (UpdateValidatorMetadata plain_codec all_work example_db ''abcd'' (Some 5)) = None \<and>
   GetValidatorShare plain_codec all_work
     (snd (UpdateValidatorMetadata plain_codec all_work example_db ''abcd'' (Some 5))) [171, 205] =
     (Some (example_share\<lparr>Metadata := Some 5\<rparr>), True, None)"
proof -
  have nn: "\<forall>k. Committee example_share k \<noteq> Some None"
    using no_nil_example by (simp add: no_nil_def)
  have u: "UpdateValidatorMetadata plain_codec all_work example_db ''abcd'' (Some 5) =
      (None, snd (UpdateValidatorMetadata plain_codec all_work example_db ''abcd'' (Some 5)))"
    using Update_example by (simp add: prod_eq_iff)
  from UpdateValidatorMetadata_then_Get [OF round_trips_plain canonical_plain hex_abcd Get_example nn u]
    round_trips_plain canonical_plain hex_abcd Get_example Update_example
  show ?thesis by (intro conjI)
qed

text \<open>
  Claim C9 as stated fails for a public key under which no share is stored:
  \<open>UpdateValidatorMetadata\<close> succeeds, changes nothing, and \<open>GetValidatorShare\<close> finds
  no share.
\<close>

theorem UpdateValidatorMetadata_unknown_counterexample:
  "hex_DecodeString ''abcd'' = Some [171, 205] \<and>
   fst (UpdateValidatorMetadata plain_codec all_work empty_db ''abcd'' (Some 5)) = None \<and>
   GetValidatorShare plain_codec all_work
     (snd (UpdateValidatorMetadata plain_codec all_work empty_db ''abcd'' (Some 5))) [171, 205] =
     (None, False, None)"
  by (simp add: hex_abcd UpdateValidatorMetadata_def GetValidatorShare_def getUnsafe_def
      db_Get_def empty_db_def del: hex_DecodeString.simps)


text \<open>
  So it is for every public key under which nothing is stored: the update succeeds and
  stores nothing.
\<close>

lemma UpdateValidatorMetadata_not_stored:
  assumes "hex_DecodeString pk = Some key" and "d key = None"
  shows "UpdateValidatorMetadata cd fl d pk m = (None, d)"
    and "GetValidatorShare cd fl d key = (None, False, None)"
  using assms
  by (simp_all add: UpdateValidatorMetadata_def GetValidatorShare_def getUnsafe_def db_Get_def)


subsection \<open>Thresholds in float64\<close>


lemma round_even_err: "\<bar>of_int (round_even z) - z\<bar> \<le> 1 / 2"
  unfolding round_even_def Let_def by (auto simp: abs_if; linarith)

lemma round_even_of_int: "round_even (of_int m) = m"
  by (simp add: round_even_def)

lemma of_int_bitlen_bounds:
  assumes "0 < a"
  shows "power_int 2 (bitlen a - 1) \<le> (of_int a :: rat)" "(of_int a :: rat) < power_int 2 (bitlen a)"
proof -
  from assms have l: "1 \<le> bitlen a"
    by (simp add: bitlen_alt_def)
  from bitlen_bounds [OF assms] have b: "2 ^ nat (bitlen a - 1) \<le> a" "a < 2 ^ nat (bitlen a)"
    by simp_all
  from b(1) have "(of_int (2 ^ nat (bitlen a - 1)) :: rat) \<le> of_int a"
    by (simp only: of_int_le_iff)
  with l show "power_int 2 (bitlen a - 1) \<le> (of_int a :: rat)"
    by (simp add: power_int_def)
  from b(2) have "(of_int a :: rat) < of_int (2 ^ nat (bitlen a))"
    by (simp only: of_int_less_iff)
  with l show "(of_int a :: rat) < power_int 2 (bitlen a)"
    by (simp add: power_int_def)
qed

lemma binade_bounds:
  assumes "0 < x"
  shows "power_int 2 (binade x) \<le> x \<and> x < power_int 2 (binade x + 1)"
proof -
  obtain a b where q: "quotient_of x = (a, b)"
    by (cases "quotient_of x")
  then have b: "0 < b" and x: "x = of_int a / of_int b"
    by (simp_all add: quotient_of_denom_pos quotient_of_div)
  from assms b x have a: "0 < a"
    by (simp add: zero_less_divide_iff)
  let ?d = "bitlen a - bitlen b"
  note A = of_int_bitlen_bounds [OF a] and B = of_int_bitlen_bounds [OF b]
  have pb: "(0::rat) < power_int 2 (bitlen b)" "(0::rat) < power_int 2 (bitlen b - 1)"
    by (simp_all add: power_int_def)
  from b have rb: "(0::rat) < of_int b" by simp
  have "x < power_int 2 (bitlen a) / power_int 2 (bitlen b - 1)"
    unfolding x using A(2) B(1) pb rb a by (intro frac_less) simp_all
  also have "\<dots> = power_int 2 (bitlen a - (bitlen b - 1))"
    by (rule power_int_diff [symmetric]) simp
  also have "bitlen a - (bitlen b - 1) = ?d + 1"
    by simp
  finally have hi: "x < power_int 2 (?d + 1)" .
  have "power_int 2 (bitlen a - 1) / power_int 2 (bitlen b) < x"
    unfolding x using A(1) B(2) pb rb a by (intro frac_less2) simp_all
  moreover have "power_int 2 (bitlen a - 1) / power_int 2 (bitlen b) =
      (power_int 2 (bitlen a - 1 - bitlen b) :: rat)"
    by (rule power_int_diff [symmetric]) simp
  moreover have "bitlen a - 1 - bitlen b = ?d - 1"
    by simp
  ultimately have lo: "power_int 2 (?d - 1) < x" by simp
  show ?thesis
  proof (cases "x < power_int 2 ?d")
    case True
    with q lo show ?thesis by (simp add: binade_def)
  next
    case False
    with q hi show ?thesis by (simp add: binade_def)
  qed
qed


lemma round_float64_pos:
  assumes "0 < x"
  shows "round_float64 x =
    of_int (round_even (x / power_int 2 (binade x - 52))) * power_int 2 (binade x - 52)"
  using assms by (simp add: round_float64_def Let_def)

lemma round_float64_err:
  assumes "0 < x"
  shows "\<bar>round_float64 x - x\<bar> \<le> power_int 2 (binade x - 53)"
proof -
  let ?u = "power_int 2 (binade x - 52) :: rat"
  have u: "0 < ?u" by (simp add: power_int_def)
  have "round_float64 x - x = (of_int (round_even (x / ?u)) - x / ?u) * ?u"
    using u by (simp add: round_float64_pos [OF assms] algebra_simps)
  then have "\<bar>round_float64 x - x\<bar> = \<bar>of_int (round_even (x / ?u)) - x / ?u\<bar> * ?u"
    using u by (simp add: abs_mult)
  also have "\<dots> \<le> 1 / 2 * ?u"
    using u round_even_err [of "x / ?u"] by (intro mult_right_mono) simp_all
  also have "1 / 2 * ?u = power_int 2 (binade x - 52 - 1)"
    by (subst power_int_diff) simp_all
  also have "binade x - 52 - 1 = binade x - 53" by simp
  finally show ?thesis .
qed

lemma binade_less:
  assumes "0 < x" and "x < 2 ^ n"
  shows "binade x < int n"
proof (rule ccontr)
  assume "\<not> binade x < int n"
  then have "int n \<le> binade x" by simp
  then have "power_int (2::rat) (int n) \<le> power_int 2 (binade x)"
    by (intro power_int_increasing) simp_all
  also from binade_bounds [OF assms(1)] have "\<dots> \<le> x" by simp
  finally show False using assms(2) by simp
qed

lemma round_float64_of_int:
  assumes "0 \<le> m" and "m < 2 ^ 53"
  shows "round_float64 (of_int m) = of_int m"
proof (cases "m = 0")
  case True
  then show ?thesis by (simp add: round_float64_def)
next
  case False
  with assms have pos: "0 < (of_int m :: rat)" by simp
  from assms(2) have "(of_int m :: rat) < of_int (2 ^ 53)"
    by (simp only: of_int_less_iff)
  then have "(of_int m :: rat) < 2 ^ 53" by simp
  from binade_less [OF pos this] have e: "binade (of_int m) \<le> 52" by simp
  define k where "k = nat (52 - binade (of_int m))"
  have u: "power_int 2 (binade (of_int m) - 52) = (1 / 2 ^ k :: rat)"
  proof -
    from e have "binade (of_int m) - 52 = - int k" by (simp add: k_def)
    then show ?thesis by (simp add: power_int_minus_divide)
  qed
  have "of_int m / (1 / 2 ^ k :: rat) = of_int (m * 2 ^ k)" by simp
  then have "round_even (of_int m / (1 / 2 ^ k)) = m * 2 ^ k"
    by (simp only: round_even_of_int)
  then show ?thesis
    by (simp add: round_float64_pos [OF pos] u)
qed

lemma ceiling_thirds:
  assumes "0 < p" and "p < 3 * 2 ^ 52"
  shows "\<lceil>round_float64 (of_int p / 3)\<rceil> = \<lceil>(of_int p / 3 :: rat)\<rceil>"
proof (cases "3 dvd p")
  case True
  then obtain k where k: "p = 3 * k" by (auto simp: dvd_def)
  with assms have "0 \<le> k" "k < 2 ^ 53" by simp_all
  then have "round_float64 (of_int k) = of_int k" by (rule round_float64_of_int)
  then show ?thesis by (simp add: k)
next
  case False
  let ?y = "of_int p / 3 :: rat"
  let ?k = "p div 3"
  from assms have pos: "0 < ?y" by simp
  from assms(2) have "(of_int p :: rat) < of_int (3 * 2 ^ 52)"
    by (simp only: of_int_less_iff)
  then have "?y < 2 ^ 52" by simp
  from binade_less [OF pos this] have "binade ?y - 53 \<le> - 2" by simp
  then have "power_int (2::rat) (binade ?y - 53) \<le> power_int 2 (- 2)"
    by (intro power_int_increasing) simp_all
  with round_float64_err [OF pos] have err: "\<bar>round_float64 ?y - ?y\<bar> \<le> 1 / 4"
    by (simp add: power_int_minus_divide)
  from False have "p mod 3 = 1 \<or> p mod 3 = 2" by presburger
  then have "p = 3 * ?k + 1 \<or> p = 3 * ?k + 2" by presburger
  then have "?y = of_int ?k + 1 / 3 \<or> ?y = of_int ?k + 2 / 3"
  proof
    assume "p = 3 * ?k + 1"
    then have "(of_int p :: rat) = of_int (3 * ?k + 1)" by simp
    then show ?thesis by simp
  next
    assume "p = 3 * ?k + 2"
    then have "(of_int p :: rat) = of_int (3 * ?k + 2)" by simp
    then show ?thesis by simp
  qed
  then have y: "of_int ?k + 1 / 3 \<le> ?y" "?y \<le> of_int ?k + 2 / 3" by auto
  from err have e2: "round_float64 ?y - ?y \<le> 1 / 4" "?y - round_float64 ?y \<le> 1 / 4"
    by (simp_all only: abs_le_iff minus_diff_eq)
  have "of_int ?k < round_float64 ?y"
    using e2(2) y(1) by linarith
  moreover have "round_float64 ?y \<le> of_int ?k + 1"
    using e2(1) y(2) by linarith
  ultimately have "of_int (?k + 1) - 1 < round_float64 ?y" "round_float64 ?y \<le> of_int (?k + 1)"
    by simp_all
  then have "\<lceil>round_float64 ?y\<rceil> = ?k + 1" by (rule ceiling_unique)
  moreover from y have "of_int (?k + 1) - 1 < ?y" "?y \<le> of_int (?k + 1)"
    by simp_all
  then have "\<lceil>?y\<rceil> = ?k + 1" by (rule ceiling_unique)
  ultimately show ?thesis by simp
qed

lemma float64_ceiling_thirds:
  assumes "0 \<le> p" and "p < 2 ^ 53"
  shows "int_Ceil (float64_div (of_int p) 3) = \<lceil>(of_int p / 3 :: rat)\<rceil>"
proof (cases "p = 0")
  case True
  then show ?thesis by (simp add: int_Ceil_def float64_div_def round_float64_def)
next
  case False
  with assms have "0 < p" "p < 3 * 2 ^ 52" by simp_all
  then show ?thesis
    unfolding int_Ceil_def float64_div_def by (rule ceiling_thirds)
qed


lemma float64_doubled:
  assumes "0 \<le> n" and "n < 2 ^ 52"
  shows "float64_mul (float64_of_int n) 2 = of_int (2 * n)"
proof -
  from assms have "round_float64 (of_int n) = of_int n"
    by (intro round_float64_of_int) simp_all
  moreover from assms have "round_float64 (of_int (2 * n)) = of_int (2 * n)"
    by (intro round_float64_of_int) simp_all
  ultimately show ?thesis
    by (simp add: float64_mul_def float64_of_int_def mult.commute)
qed

lemma float64_times_one:
  assumes "0 \<le> n" and "n < 2 ^ 52"
  shows "float64_mul (float64_of_int n) 1 = of_int n"
proof -
  from assms have "round_float64 (of_int n) = of_int n"
    by (intro round_float64_of_int) simp_all
  then show ?thesis
    by (simp add: float64_mul_def float64_of_int_def)
qed

text \<open>
  Claim C7. For a share with a committee of \<open>n\<close> members, \<open>n\<close> below \<open>2 ^ 52\<close>,
  \<open>ThresholdSize\<close> is the integer ceiling of \<open>2 * n / 3\<close> and \<open>PartialThresholdSize\<close>
  the integer ceiling of \<open>n / 3\<close>: the rounding of \<open>float64\<close> does not show. For
  \<open>n = 4\<close> they are 3 and 2.
\<close>

theorem thresholds_are_ceilings:
  assumes "CommitteeSize s < 2 ^ 52"
  shows "ThresholdSize s = \<lceil>(2 * of_nat (CommitteeSize s) / 3 :: rat)\<rceil> \<and>
    PartialThresholdSize s = \<lceil>(of_nat (CommitteeSize s) / 3 :: rat)\<rceil> \<and>
    (CommitteeSize s = 4 \<longrightarrow> ThresholdSize s = 3 \<and> PartialThresholdSize s = 2)"
proof -
  let ?n = "int (CommitteeSize s)"
  from assms have n: "0 \<le> ?n" "?n < 2 ^ 52"
    by simp_all
  then have p: "0 \<le> 2 * ?n" "2 * ?n < 2 ^ 53" "?n < 2 ^ 53"
    by simp_all
  have "ThresholdSize s = int_Ceil (float64_div (of_int (2 * ?n)) 3)"
    by (simp only: ThresholdSize_def float64_doubled [OF n])
  also have "\<dots> = \<lceil>(of_int (2 * ?n) / 3 :: rat)\<rceil>"
    using p(1,2) by (rule float64_ceiling_thirds)
  finally have t: "ThresholdSize s = \<lceil>(2 * of_nat (CommitteeSize s) / 3 :: rat)\<rceil>"
    by simp
  have "PartialThresholdSize s = int_Ceil (float64_div (of_int ?n) 3)"
    by (simp only: PartialThresholdSize_def float64_times_one [OF n])
  also have "\<dots> = \<lceil>(of_int ?n / 3 :: rat)\<rceil>"
    using n(1) p(3) by (rule float64_ceiling_thirds)
  finally have q: "PartialThresholdSize s = \<lceil>(of_nat (CommitteeSize s) / 3 :: rat)\<rceil>"
    by simp
  have "ThresholdSize s = 3 \<and> PartialThresholdSize s = 2" if "CommitteeSize s = 4"
  proof -
    have "\<lceil>(2 * 4 / 3 :: rat)\<rceil> = 3" "\<lceil>(4 / 3 :: rat)\<rceil> = 2"
      by (simp_all add: ceiling_unique)
    with t q that show ?thesis by simp
  qed
  with t q show ?thesis by blast
qed

lemma CommitteeSize_example: "CommitteeSize example_share = 4"
  by (simp add: CommitteeSize_def example_share_def four_nodes_def)

theorem thresholds_are_ceilings_witness:
  "CommitteeSize example_share < 2 ^ 52 \<and> CommitteeSize example_share = 4 \<and>
   ThresholdSize example_share = 3 \<and> PartialThresholdSize example_share = 2"
proof -
  have b: "CommitteeSize example_share < 2 ^ 52"
    by (simp add: CommitteeSize_example)
  from thresholds_are_ceilings [OF b] CommitteeSize_example
  have "ThresholdSize example_share = 3 \<and> PartialThresholdSize example_share = 2"
    by blast
  with b CommitteeSize_example show ?thesis
    by (intro conjI) simp_all
qed



lemma binade_eqI:
  assumes "power_int 2 e \<le> x" and "x < power_int 2 (e + 1)"
  shows "binade x = e"
proof -
  have "(0::rat) < power_int 2 e" by (simp add: power_int_def)
  from this assms(1) have pos: "0 < x" by (rule less_le_trans)
  note b = binade_bounds [OF pos]
  have "\<not> binade x < e"
  proof
    assume "binade x < e"
    then have "binade x + 1 \<le> e" by simp
    then have "power_int (2::rat) (binade x + 1) \<le> power_int 2 e"
      by (intro power_int_increasing) simp_all
    with b assms(1) show False by simp
  qed
  moreover have "\<not> e < binade x"
  proof
    assume "e < binade x"
    then have "e + 1 \<le> binade x" by simp
    then have "power_int (2::rat) (e + 1) \<le> power_int 2 (binade x)"
      by (intro power_int_increasing) simp_all
    with b assms(2) show False by simp
  qed
  ultimately show ?thesis by simp
qed

lemma float64_of_large: "float64_of_int 9007199254740993 = 9007199254740992"
proof -
  have "binade 9007199254740993 = 53"
    by (rule binade_eqI) simp_all
  moreover have "\<lfloor>9007199254740993 / 2 :: rat\<rfloor> = 4503599627370496"
    by (rule floor_unique) simp_all
  ultimately show ?thesis
    by (simp add: float64_of_int_def round_float64_def round_even_def Let_def)
qed

lemma float64_mul_large: "float64_mul 9007199254740992 2 = 18014398509481984"
proof -
  have "binade 18014398509481984 = 54"
    by (rule binade_eqI) simp_all
  then show ?thesis
    by (simp add: float64_mul_def round_float64_def round_even_def)
qed

lemma float64_div_large: "float64_div 18014398509481984 3 = 6004799503160661"
proof -
  have "binade (18014398509481984 / 3) = 52"
    by (rule binade_eqI) simp_all
  moreover have "\<lfloor>18014398509481984 / 3 :: rat\<rfloor> = 6004799503160661"
    by (rule floor_unique) simp_all
  ultimately show ?thesis
    by (simp add: float64_div_def round_float64_def round_even_def Let_def)
qed

text \<open>
  The bound of the theorem is where \<open>float64\<close> stops holding every integer. No
  committee map has \<open>2 ^ 53 + 1\<close> entries, but on that number the arithmetic rounds:
  the computed threshold is one below the ceiling.
\<close>

lemma threshold_rounding_shows:
  "int_Ceil (float64_div (float64_mul (float64_of_int (2 ^ 53 + 1)) 2) 3) = 6004799503160661 \<and>
   \<lceil>(2 * (2 ^ 53 + 1) / 3 :: rat)\<rceil> = 6004799503160662"
proof -
  have "\<lceil>(2 * (2 ^ 53 + 1) / 3 :: rat)\<rceil> = 6004799503160662"
    by (simp add: ceiling_unique)
  moreover have "int_Ceil (float64_div (float64_mul (float64_of_int (2 ^ 53 + 1)) 2) 3) = 6004799503160661"
    by (simp add: float64_of_large float64_mul_large float64_div_large int_Ceil_def)
  ultimately show ?thesis by simp
qed


end
